theory Spec2Isabelle
  imports Complex_Main
begin

section \<open>JavaScript values used by the OCR pipeline\<close>

text \<open>
  A JavaScript string is a sequence of UTF-16 code units; \<open>js\<close> embeds an ASCII literal.
  A JavaScript number is an IEEE-754 double: every finite double is a rational number, so
  the finite ones are carried as \<open>rat\<close>. \<open>Math.min\<close>, \<open>Math.max\<close> and the comparisons
  are exact on them; only \<open>+\<close> and \<open>*\<close> round (see \<open>fl\<close> below).
\<close>

type_synonym jsstring = "int list"

definition js :: "string \<Rightarrow> jsstring" where
  "js s = map of_char s"

datatype jsnum = NaN | PosInf | NegInf | Fin rat

text \<open>
  \<open>Number(raw)\<close> is the runtime's string-to-number conversion. The module constants take
  it as a parameter; \<open>Number_dec\<close> is its value on unsigned decimal integer literals,
  the only strings at which the development evaluates it (it stands for nothing else).
\<close>

definition Number_dec :: "jsstring \<Rightarrow> jsnum" where
  "Number_dec s =
     (if s \<noteq> [] \<and> list_all (\<lambda>c. 48 \<le> c \<and> c \<le> 57) s
      then Fin (of_int (foldl (\<lambda>a c. 10 * a + (c - 48)) 0 s)) else NaN)"

text \<open>
  \<^verbatim>\<open>const raw = process.env.X; const n = raw ? Number(raw) : NaN;\<close>
  An unset variable is \<open>None\<close>; the empty string is falsy.
\<close>

definition env_number :: "(jsstring \<Rightarrow> jsnum) \<Rightarrow> jsstring option \<Rightarrow> jsnum" where
  "env_number Number raw =
     (case raw of None \<Rightarrow> NaN | Some s \<Rightarrow> if s = [] then NaN else Number s)"

section \<open>Module constants\<close>

text \<open>
  \<^verbatim>\<open>if (!Number.isFinite(n) || n <= 0) return 3; return Math.min(Math.max(n, 1), 5);\<close>
\<close>

definition OCR_BATCH_SIZE :: "(jsstring \<Rightarrow> jsnum) \<Rightarrow> jsstring option \<Rightarrow> rat" where
  "OCR_BATCH_SIZE Number raw =
     (case env_number Number raw of
        Fin n \<Rightarrow> if n \<le> 0 then 3 else min (max n 1) 5
      | _ \<Rightarrow> 3)"

text \<open>
  \<^verbatim>\<open>if (!Number.isFinite(n)) return 180; return Math.min(Math.max(n, 0), 255);\<close>
\<close>

definition BINARIZE_THRESHOLD :: "(jsstring \<Rightarrow> jsnum) \<Rightarrow> jsstring option \<Rightarrow> rat" where
  "BINARIZE_THRESHOLD Number raw =
     (case env_number Number raw of
        Fin n \<Rightarrow> min (max n 0) 255
      | _ \<Rightarrow> 180)"

text \<open>
  \<^verbatim>\<open>if (!Number.isFinite(n) || n <= 0) return 2; return Math.min(Math.max(n, 1.5), 3);\<close>
\<close>

definition RENDER_SCALE :: "(jsstring \<Rightarrow> jsnum) \<Rightarrow> jsstring option \<Rightarrow> rat" where
  "RENDER_SCALE Number raw =
     (case env_number Number raw of
        Fin n \<Rightarrow> if n \<le> 0 then 2 else min (max n (3 / 2)) 3
      | _ \<Rightarrow> 2)"

definition AMHARIC_RENDER_SCALE :: rat where
  "AMHARIC_RENDER_SCALE = 3 / 2"

definition AMHARIC_BINARIZE_ENABLED :: bool where
  "AMHARIC_BINARIZE_ENABLED = True"

section \<open>Double-precision arithmetic\<close>

text \<open>
  \<open>fl x\<close> is the double nearest to the rational \<open>x\<close>, ties to even: the result of one
  IEEE-754 operation whose exact value is \<open>x\<close>, for \<open>x \<ge> 0\<close> in the normal range (all
  values computed here lie between \<open>2^-4\<close> and \<open>2^33\<close>, or are zero).
  \<open>bitlen n\<close> is the number of binary digits of \<open>n\<close>, \<open>ilog2 x\<close> the exponent
  \<open>e\<close> with \<open>2^e \<le> x < 2^(e+1)\<close>; a double has 53 significant bits.
\<close>

function bitlen :: "int \<Rightarrow> int" where
  "bitlen n = (if n \<le> 0 then 0 else 1 + bitlen (n div 2))"
  by pat_completeness auto
termination
  by (relation "measure nat") auto

declare bitlen.simps [simp del]

definition pow2 :: "int \<Rightarrow> rat" where
  "pow2 d = (if 0 \<le> d then 2 ^ nat d else 1 / 2 ^ nat (- d))"

definition ilog2 :: "rat \<Rightarrow> int" where
  "ilog2 x = (let (p, q) = quotient_of x; d = bitlen p - bitlen q
              in if pow2 d \<le> x then d else d - 1)"

definition round_even :: "rat \<Rightarrow> int" where
  "round_even y = (let f = \<lfloor>y\<rfloor>; r = y - of_int f in
     if r < 1 / 2 then f else if 1 / 2 < r then f + 1 else if even f then f else f + 1)"

definition fl :: "rat \<Rightarrow> rat" where
  "fl x = (if x = 0 then 0 else
     let s = pow2 (ilog2 x - 52) in of_int (round_even (x / s)) * s)"

section \<open>Binarization of a rendered page\<close>

text \<open>
  \<^verbatim>\<open>const gray = 0.299 * r + 0.587 * g + 0.114 * b;\<close>
  Each decimal literal denotes the nearest double, each product and each sum (left to
  right) is rounded. Reading past the end of a typed array gives \<open>undefined\<close>, which makes
  the sum \<open>NaN\<close>: \<open>gray\<close> is \<open>None\<close> then, and \<open>NaN >= T\<close> is false.
\<close>

definition luminance :: "nat \<Rightarrow> nat \<Rightarrow> nat \<Rightarrow> rat" where
  "luminance r g b =
     fl (fl (fl (fl (299 / 1000) * of_nat r) + fl (fl (587 / 1000) * of_nat g))
         + fl (fl (114 / 1000) * of_nat b))"

definition rd :: "nat list \<Rightarrow> nat \<Rightarrow> nat option" where
  "rd d i = (if i < length d then Some (d ! i) else None)"

definition gray :: "nat list \<Rightarrow> nat \<Rightarrow> rat option" where
  "gray d idx =
     (case (rd d idx, rd d (idx + 1), rd d (idx + 2)) of
        (Some r, Some g, Some b) \<Rightarrow> Some (luminance r g b)
      | _ \<Rightarrow> None)"

text \<open>\<^verbatim>\<open>const v = gray >= BINARIZE_THRESHOLD ? 255 : 0;\<close>\<close>

definition pixel_value :: "rat \<Rightarrow> nat list \<Rightarrow> nat \<Rightarrow> nat" where
  "pixel_value T d idx =
     (case gray d idx of Some y \<Rightarrow> if T \<le> y then 255 else 0 | None \<Rightarrow> 0)"

text \<open>
  \<^verbatim>\<open>data[idx] = data[idx + 1] = data[idx + 2] = v;\<close>
  The assignments run right to left; a write past the end of a typed array is ignored,
  as \<open>list_update\<close> does.
\<close>

definition binarize_pixel :: "rat \<Rightarrow> nat list \<Rightarrow> nat \<Rightarrow> nat list" where
  "binarize_pixel T d idx =
     (let v = pixel_value T d idx in d[idx + 2 := v, idx + 1 := v, idx := v])"

text \<open>\<^verbatim>\<open>for (let idx = 0; idx < data.length; idx += 4) { ... }\<close>\<close>

function binarize_loop :: "rat \<Rightarrow> nat list \<Rightarrow> nat \<Rightarrow> nat list" where
  "binarize_loop T d idx =
     (if idx < length d then binarize_loop T (binarize_pixel T d idx) (idx + 4) else d)"
  by pat_completeness auto
termination
  by (relation "measure (\<lambda>(T, d, idx). length d - idx)") (auto simp: binarize_pixel_def Let_def)

declare binarize_loop.simps [simp del]

text \<open>
  The pixel buffer of a canvas: RGBA bytes, row by row, with the canvas dimensions.
  \<open>binarize\<close> is \<open>getImageData\<close>, the loop, \<open>putImageData\<close>.
\<close>

record ImageData =
  data :: "nat list"
  width :: nat
  height :: nat

definition binarize :: "rat \<Rightarrow> ImageData \<Rightarrow> ImageData" where
  "binarize T img = img\<lparr>data := binarize_loop T (data img) 0\<rparr>"

section \<open>Strings: the operations the pipeline uses\<close>

text \<open>
  \<open>is_space\<close> is the set matched by \<open>\s\<close> and stripped by \<open>trim()\<close>: the ECMAScript
  white space and line terminator code units.
\<close>

definition is_space :: "int \<Rightarrow> bool" where
  "is_space c \<longleftrightarrow>
     c \<in> {9, 10, 11, 12, 13, 32, 160, 5760, 8232, 8233, 8239, 8287, 12288, 65279}
     \<or> (8192 \<le> c \<and> c \<le> 8202)"

definition trim :: "jsstring \<Rightarrow> jsstring" where
  "trim s = rev (dropWhile is_space (rev (dropWhile is_space s)))"

text \<open>\<open>s.includes(t)\<close>: \<open>t\<close> occurs in \<open>s\<close> as a contiguous run.\<close>

fun starts_with :: "jsstring \<Rightarrow> jsstring \<Rightarrow> bool" where
  "starts_with s [] = True"
| "starts_with [] (t # ts) = False"
| "starts_with (c # cs) (t # ts) = (c = t \<and> starts_with cs ts)"

fun includes_str :: "jsstring \<Rightarrow> jsstring \<Rightarrow> bool" where
  "includes_str [] t = (t = [])"
| "includes_str (c # cs) t = (starts_with (c # cs) t \<or> includes_str cs t)"

fun join :: "jsstring \<Rightarrow> jsstring list \<Rightarrow> jsstring" where
  "join sep [] = []"
| "join sep [x] = x"
| "join sep (x # y # ys) = x @ sep @ join sep (y # ys)"

text \<open>\<open>s.replace(/\s+/g, " ")\<close>: every maximal run of white space becomes one space.\<close>

function collapse_ws :: "jsstring \<Rightarrow> jsstring" where
  "collapse_ws [] = []"
| "collapse_ws (c # cs) =
     (if is_space c then 32 # collapse_ws (dropWhile is_space cs) else c # collapse_ws cs)"
  by pat_completeness auto
termination
  by (relation "measure length") (auto simp: length_dropWhile_le less_Suc_eq_le)

text \<open>
  \<open>s.split(/\n{2,}/)\<close>: the separators are the maximal runs of two or more line feeds;
  \<open>cur\<close> is the piece read so far.
\<close>

function split_paragraphs :: "jsstring \<Rightarrow> jsstring \<Rightarrow> jsstring list" where
  "split_paragraphs cur [] = [cur]"
| "split_paragraphs cur (c # cs) =
     (if c = 10 \<and> cs \<noteq> [] \<and> hd cs = 10
      then cur # split_paragraphs [] (dropWhile (\<lambda>x. x = 10) cs)
      else split_paragraphs (cur @ [c]) cs)"
  by pat_completeness auto
termination
  by (relation "measure (\<lambda>(cur, s). length s)") (auto simp: length_dropWhile_le less_Suc_eq_le)

section \<open>Document assembly: cleaning one page text\<close>

text \<open>
  \<^verbatim>\<open>let cleaned = rawText
    .replace(/[\u0000-\u0008\u000B\u000C\u000E-\u001F\u007F]/g, " ")
    // Don't replace replacement character for Amharic as it might be valid
    .replace(/\uFFFD/g, isAmharic ? "" : " ");
  if (isAmharic) {
    cleaned = cleaned
      .replace(/[\u200B-\u200D\uFEFF]/g, "")
      .replace(/[\u202A-\u202E]/g, "");
  }\<close>
\<close>

definition is_control :: "int \<Rightarrow> bool" where
  "is_control c \<longleftrightarrow>
     (0 \<le> c \<and> c \<le> 8) \<or> c = 11 \<or> c = 12 \<or> (14 \<le> c \<and> c \<le> 31) \<or> c = 127"

definition replace_controls :: "jsstring \<Rightarrow> jsstring" where
  "replace_controls s = map (\<lambda>c. if is_control c then 32 else c) s"

definition replace_fffd :: "bool \<Rightarrow> jsstring \<Rightarrow> jsstring" where
  "replace_fffd isAmharic s =
     concat (map (\<lambda>c. if c = 65533 then (if isAmharic then [] else [32]) else [c]) s)"

definition remove_zero_width :: "jsstring \<Rightarrow> jsstring" where
  "remove_zero_width s = filter (\<lambda>c. \<not> ((8203 \<le> c \<and> c \<le> 8205) \<or> c = 65279)) s"

definition remove_bidi :: "jsstring \<Rightarrow> jsstring" where
  "remove_bidi s = filter (\<lambda>c. \<not> (8234 \<le> c \<and> c \<le> 8238)) s"

definition clean_text :: "bool \<Rightarrow> jsstring \<Rightarrow> jsstring" where
  "clean_text isAmharic rawText =
     (let cleaned = replace_fffd isAmharic (replace_controls rawText)
      in if isAmharic then remove_bidi (remove_zero_width cleaned) else cleaned)"

text \<open>
  \<^verbatim>\<open>const paragraphs = cleaned.split(/\n{2,}/)
    .map((p) => p.trim().replace(/\s+/g, " ")).filter(Boolean);
  const normalizedText = paragraphs.join("\n\n");\<close>
\<close>

definition normalize_text :: "jsstring \<Rightarrow> jsstring" where
  "normalize_text cleaned =
     join [10, 10]
       (filter (\<lambda>p. p \<noteq> []) (map (\<lambda>p. collapse_ws (trim p)) (split_paragraphs [] cleaned)))"

text \<open>The text handed to \<open>drawText\<close>: \<^verbatim>\<open>normalizedText || cleaned || "(empty)"\<close>.\<close>

definition page_text :: "bool \<Rightarrow> jsstring \<Rightarrow> jsstring" where
  "page_text isAmharic rawText =
     (let cleaned = clean_text isAmharic rawText; normalizedText = normalize_text cleaned
      in if normalizedText \<noteq> [] then normalizedText
         else if cleaned \<noteq> [] then cleaned else js ''(empty)'')"

text \<open>
  \<open>toLowerCase\<close> on the ASCII letters. The pipeline only compares its result with ASCII
  literals (\<open>".pdf"\<close>), and no code unit outside ASCII lower-cases to one of their letters,
  so the comparisons come out as in the runtime.
\<close>

definition toLowerCase :: "jsstring \<Rightarrow> jsstring" where
  "toLowerCase s = map (\<lambda>c. if 65 \<le> c \<and> c \<le> 90 then c + 32 else c) s"

definition ends_with :: "jsstring \<Rightarrow> jsstring \<Rightarrow> bool" where
  "ends_with s t = starts_with (rev s) (rev t)"

text \<open>The decimal digits of a number, as a template literal prints an integer.\<close>

fun decimal :: "nat \<Rightarrow> jsstring" where
  "decimal n = (if n < 10 then [48 + int n] else decimal (n div 10) @ [48 + int (n mod 10)])"

declare decimal.simps [simp del]

text \<open>
  \<open>xs.slice(start, end)\<close>: both bounds are truncated towards zero, a negative bound counts
  from the end, and both are clamped to the length.
\<close>

definition trunc :: "rat \<Rightarrow> int" where
  "trunc x = (if 0 \<le> x then \<lfloor>x\<rfloor> else \<lceil>x\<rceil>)"

definition slice_bound :: "'a list \<Rightarrow> rat \<Rightarrow> nat" where
  "slice_bound xs x =
     (let len = int (length xs); r = trunc x
      in nat (if r < 0 then max (len + r) 0 else min r len))"

definition slice :: "'a list \<Rightarrow> rat \<Rightarrow> rat \<Rightarrow> 'a list" where
  "slice xs start end =
     (let k = slice_bound xs start; final = slice_bound xs end
      in take (final - k) (drop k xs))"

section \<open>The output document\<close>

text \<open>
  A page of the output document: the text drawn on it, the font size, the line height
  (the placeholder is drawn without one) and whether it is drawn in red.
\<close>

record page =
  ptext :: jsstring
  psize :: nat
  plineHeight :: "nat option"
  pred :: bool

record document =
  doc_pages :: "page list"
  doc_font :: "nat list"
  doc_subset :: bool

section \<open>The environment of the pipeline\<close>

text \<open>
  What the module calls but does not define is a parameter of the model:
  \<^item> \<open>createWorker tag\<close>: whether constructing a recognition engine for the tag
    (\<open>createWorker\<close> followed by \<open>setParameters\<close>) succeeds;
  \<^item> \<open>recognize tag bytes\<close>: the outcome of \<open>worker.recognize(bytes, {lang})\<close> on the
    engine of that tag: \<open>None\<close> when it rejects, otherwise \<open>data.text\<close>, which may be
    missing;
  \<^item> \<open>getDocument bytes\<close>: the parsed PDF, or \<open>None\<close> when loading throws; a PDF is the list
    of its pages, and a page maps the render scale to the rendered canvas, or to \<open>None\<close>
    when fetching or rendering that page throws;
  \<^item> \<open>data_after_getDocument bytes\<close>: what the caller's byte array holds once
    \<open>getDocument({ data: pdfBytes })\<close> has been called on it. The library takes ownership
    of the array it is given: when it transfers the buffer the caller's array is left
    empty (\<open>[]\<close>), and an array it had to copy is left as it was;
  \<^item> \<open>toBuffer\<close>: the PNG encoding of a canvas;
  \<^item> \<open>ttf_file\<close>, \<open>otf_file\<close>: the contents of the two local font files, when they exist;
  \<^item> \<open>fetch_font\<close>: the body of the font download, or \<open>None\<close> when the download fails;
  \<^item> \<open>embedFont fontData subset\<close>: whether \<open>pdf.embedFont(fontData, { subset })\<close> accepts
    the bytes as a font (it throws otherwise);
  \<^item> \<open>drawText text\<close>: whether \<open>page.drawText\<close> accepts the text (it throws otherwise);
  \<^item> \<open>saveAsBase64 doc\<close>: whether serializing the assembled document succeeds.
  Creating the document and adding a page do not depend on the input and are taken to
  succeed.
\<close>

datatype error =
  EngineInitFailure | RecognitionFailure | NotAFunction | FontDownloadFailed
  | EmbedFontFailure | DrawFailure | SaveFailure

type_synonym pdf_page = "rat \<Rightarrow> ImageData option"

record env =
  createWorker :: "jsstring \<Rightarrow> bool"
  recognize :: "jsstring \<Rightarrow> nat list \<Rightarrow> jsstring option option"
  getDocument :: "nat list \<Rightarrow> pdf_page list option"
  data_after_getDocument :: "nat list \<Rightarrow> nat list"
  toBuffer :: "ImageData \<Rightarrow> nat list"
  ttf_file :: "nat list option"
  otf_file :: "nat list option"
  fetch_font :: "nat list option"
  embedFont :: "nat list \<Rightarrow> bool \<Rightarrow> bool"
  drawText :: "jsstring \<Rightarrow> bool"
  saveAsBase64 :: "document \<Rightarrow> bool"

text \<open>The module constants read from the process environment.\<close>

record settings =
  render_scale :: rat
  binarize_enabled :: bool
  binarize_threshold :: rat
  batch_size :: rat

section \<open>The recognition engine cache\<close>

text \<open>
  \<^verbatim>\<open>const workerCache: Record<string, Promise<Worker>> = {};\<close>
  The cache is a plain object: reading \<open>workerCache[lang]\<close> finds the promise stored
  under \<open>lang\<close>, or else a member inherited from \<open>Object.prototype\<close> when \<open>lang\<close> names
  one, or else \<open>undefined\<close>. A promise is identified by the number of constructions
  started before it and carries the tag its engine is constructed for. \<open>created\<close> logs
  the constructions started, \<open>recognized\<close> the images handed to \<open>worker.recognize\<close>.
\<close>

record promise =
  pid :: nat
  ptag :: jsstring

datatype cache_val = Undefined | Promise promise | Inherited

record pool =
  workerCache :: "jsstring \<Rightarrow> promise option"
  created :: "jsstring list"
  recognized :: "nat list list"

definition Object_prototype_keys :: "jsstring list" where
  "Object_prototype_keys =
     map js [''constructor'', ''__proto__'', ''hasOwnProperty'', ''isPrototypeOf'',
       ''propertyIsEnumerable'', ''toLocaleString'', ''toString'', ''valueOf'',
       ''__defineGetter__'', ''__defineSetter__'', ''__lookupGetter__'', ''__lookupSetter__'']"

definition cache_get :: "pool \<Rightarrow> jsstring \<Rightarrow> cache_val" where
  "cache_get p lang =
     (case workerCache p lang of
        Some pr \<Rightarrow> Promise pr
      | None \<Rightarrow> if lang \<in> set Object_prototype_keys then Inherited else Undefined)"

text \<open>
  \<^verbatim>\<open>if (!workerCache[lang]) { workerCache[lang] = (async () => { ... })(); }
  return workerCache[lang];\<close>
  The async function runs up to its first \<open>await\<close>, the call of \<open>createWorker\<close>, before
  the promise is stored: one call of \<open>getWorker\<close> is one atomic step of the event loop.
\<close>

definition getWorker :: "pool \<Rightarrow> jsstring \<Rightarrow> cache_val \<times> pool" where
  "getWorker p lang =
     (case cache_get p lang of
        Undefined \<Rightarrow>
          (let pr = \<lparr>pid = length (created p), ptag = lang\<rparr>
           in (Promise pr, p\<lparr>workerCache := (workerCache p)(lang \<mapsto> pr),
                              created := created p @ [lang]\<rparr>))
      | v \<Rightarrow> (v, p))"

text \<open>Calls of \<open>getWorker\<close> by any callers, in the order the event loop runs them.\<close>

fun getWorker_calls :: "pool \<Rightarrow> jsstring list \<Rightarrow> cache_val list \<times> pool" where
  "getWorker_calls p [] = ([], p)"
| "getWorker_calls p (lang # langs) =
     (let (v, p1) = getWorker p lang; (vs, p2) = getWorker_calls p1 langs in (v # vs, p2))"

text \<open>
  \<open>await\<close> of what \<open>getWorker\<close> returned: a promise settles as its construction does,
  the same for everyone who awaits it; any other value is its own result.
\<close>

datatype worker_val = Worker jsstring | Builtin

definition await_worker :: "env \<Rightarrow> cache_val \<Rightarrow> error + worker_val" where
  "await_worker e v =
     (case v of
        Promise pr \<Rightarrow> if createWorker e (ptag pr) then Inr (Worker (ptag pr)) else Inl EngineInitFailure
      | _ \<Rightarrow> Inr Builtin)"

text \<open>
  \<^verbatim>\<open>const worker = await getWorker(lang);
  const { data } = await worker.recognize(bytes, { lang });
  return data.text?.trim() ?? "";\<close>
\<close>

definition ocrImage :: "env \<Rightarrow> pool \<Rightarrow> nat list \<Rightarrow> jsstring \<Rightarrow> (error + jsstring) \<times> pool" where
  "ocrImage e p bytes lang =
     (let (v, p1) = getWorker p lang in
      case await_worker e v of
        Inl err \<Rightarrow> (Inl err, p1)
      | Inr Builtin \<Rightarrow> (Inl NotAFunction, p1)
      | Inr (Worker tag) \<Rightarrow>
          (let p2 = p1\<lparr>recognized := recognized p1 @ [bytes]\<rparr> in
           case recognize e tag bytes of
             None \<Rightarrow> (Inl RecognitionFailure, p2)
           | Some None \<Rightarrow> (Inr [], p2)
           | Some (Some t) \<Rightarrow> (Inr (trim t), p2)))"

section \<open>The font cache\<close>

text \<open>
  \<^verbatim>\<open>const fontCache: Record<string, Uint8Array> = {};\<close>
  Only the key \<open>"noto-ethiopic"\<close> is used, and a byte array is truthy even when empty.
  \<open>file_reads\<close> and \<open>fetches\<close> count the file reads and the downloads started.
  \<open>loadFontData\<close> runs without interruption up to \<open>await fetch(url)\<close>
  (\<open>loadFontData_begin\<close>); when the download settles it continues (\<open>loadFontData_resume\<close>).
\<close>

record fonts =
  fontCache :: "nat list option"
  file_reads :: nat
  fetches :: nat

datatype load_step = Loaded "nat list" | Fetching

definition loadFontData_begin :: "env \<Rightarrow> fonts \<Rightarrow> load_step \<times> fonts" where
  "loadFontData_begin e f =
     (case fontCache f of
        Some buf \<Rightarrow> (Loaded buf, f)
      | None \<Rightarrow>
          (case ttf_file e of
             Some buf \<Rightarrow> (Loaded buf, f\<lparr>fontCache := Some buf, file_reads := file_reads f + 1\<rparr>)
           | None \<Rightarrow>
               (case otf_file e of
                  Some buf \<Rightarrow>
                    (Loaded buf, f\<lparr>fontCache := Some buf, file_reads := file_reads f + 1\<rparr>)
                | None \<Rightarrow> (Fetching, f\<lparr>fetches := fetches f + 1\<rparr>))))"

definition loadFontData_resume :: "nat list option \<Rightarrow> fonts \<Rightarrow> (error + nat list) \<times> fonts" where
  "loadFontData_resume res f =
     (case res of
        None \<Rightarrow> (Inl FontDownloadFailed, f)
      | Some buf \<Rightarrow> (Inr buf, f\<lparr>fontCache := Some buf\<rparr>))"

text \<open>A call that nothing interleaves with.\<close>

definition loadFontData :: "env \<Rightarrow> fonts \<Rightarrow> (error + nat list) \<times> fonts" where
  "loadFontData e f =
     (case loadFontData_begin e f of
        (Loaded buf, f1) \<Rightarrow> (Inr buf, f1)
      | (Fetching, f1) \<Rightarrow> loadFontData_resume (fetch_font e) f1)"


section \<open>Rasterization\<close>

text \<open>
  \<^verbatim>\<open>for (let i = 1; i <= pageCount; i++) { ... render ...
    const shouldBinarize = isAmharic ? AMHARIC_BINARIZE_ENABLED : BINARIZE_ENABLED;
    if (shouldBinarize) { ... }
    pages.push(new Uint8Array(canvas.toBuffer("image/png"))); }\<close>
  A page that throws ends the loop with \<open>None\<close>: the exception leaves the function body.
\<close>

fun render_pages ::
  "env \<Rightarrow> rat \<Rightarrow> bool \<Rightarrow> rat \<Rightarrow> pdf_page list \<Rightarrow> nat list list option" where
  "render_pages e scale shouldBinarize T [] = Some []"
| "render_pages e scale shouldBinarize T (pg # pgs) =
     (case pg scale of
        None \<Rightarrow> None
      | Some canvas \<Rightarrow>
          (case render_pages e scale shouldBinarize T pgs of
             None \<Rightarrow> None
           | Some rest \<Rightarrow>
               Some (toBuffer e (if shouldBinarize then binarize T canvas else canvas) # rest)))"

text \<open>
  \<^verbatim>\<open>try { ... const pageCount = maxPages ? Math.min(pdf.numPages, maxPages)
                                       : Math.min(pdf.numPages, defaultMaxPages);
        const isAmharic = lang?.includes("amh"); ... return pages;
  } catch (error) { return []; }\<close>
  The result is the sequence of page images together with what the caller's array
  \<open>pdfBytes\<close> holds after the call, since \<open>getDocument\<close> takes ownership of it.
\<close>

definition rasterizePdfPages ::
  "settings \<Rightarrow> env \<Rightarrow> nat list \<Rightarrow> nat option \<Rightarrow> jsstring option \<Rightarrow>
   nat list list \<times> nat list" where
  "rasterizePdfPages cfg e pdfBytes maxPages lang =
     ((case getDocument e pdfBytes of
         None \<Rightarrow> []
       | Some pdf \<Rightarrow>
           (let defaultMaxPages = 10;
                pageCount = (case maxPages of
                                None \<Rightarrow> min (length pdf) defaultMaxPages
                              | Some m \<Rightarrow> if m = 0 then min (length pdf) defaultMaxPages
                                          else min (length pdf) m);
                isAmharic = (case lang of None \<Rightarrow> False | Some l \<Rightarrow> includes_str l (js ''amh''));
                scale = (if isAmharic then AMHARIC_RENDER_SCALE else render_scale cfg);
                shouldBinarize =
                  (if isAmharic then AMHARIC_BINARIZE_ENABLED else binarize_enabled cfg)
            in case render_pages e scale shouldBinarize (binarize_threshold cfg)
                      (take pageCount pdf) of
                 None \<Rightarrow> []
               | Some pages \<Rightarrow> pages)),
      data_after_getDocument e pdfBytes)"

section \<open>Batched recognition\<close>

text \<open>
  \<^verbatim>\<open>batch.map((pageImage) => ocrImage(pageImage, lang).catch(err => {
      return "[OCR failed for this page]"; }))\<close>
  The calls start in page order; each result, or the marker, is the value of the promise
  at that position.
\<close>

definition catch_page :: "error + jsstring \<Rightarrow> jsstring" where
  "catch_page r = (case r of Inl err \<Rightarrow> js ''[OCR failed for this page]'' | Inr t \<Rightarrow> t)"

fun ocr_batch :: "env \<Rightarrow> jsstring \<Rightarrow> pool \<Rightarrow> nat list list \<Rightarrow> jsstring list \<times> pool" where
  "ocr_batch e lang p [] = ([], p)"
| "ocr_batch e lang p (pageImage # rest) =
     (let (r, p1) = ocrImage e p pageImage lang; (rs, p2) = ocr_batch e lang p1 rest
      in (catch_page r # rs, p2))"

text \<open>
  \<open>Promise.all\<close>: the promises settle in the order \<open>completion\<close> (a list of positions);
  each value is stored at the position of its promise, and the result is delivered once
  every position is filled. \<open>None\<close>: some promise never settles, so neither does the
  result.
\<close>

definition Promise_all :: "'a list \<Rightarrow> nat list \<Rightarrow> 'a list option" where
  "Promise_all vals completion =
     (let slots = foldl (\<lambda>a j. if j < length vals then a[j := Some (vals ! j)] else a)
                    (replicate (length vals) None) completion
      in if list_all (\<lambda>s. s \<noteq> None) slots then Some (map the slots) else None)"

text \<open>
  \<^verbatim>\<open>const texts: string[] = [];
  for (let i = 0; i < pageImages.length; i += OCR_BATCH_SIZE) {
    const batch = pageImages.slice(i, i + OCR_BATCH_SIZE);
    const batchTexts = await Promise.all(...);
    texts.push(...batchTexts);
  }\<close>
  \<open>i\<close> is a double, \<open>k\<close> numbers the batches and \<open>sched k\<close> is the order in which the
  recognitions of batch \<open>k\<close> complete. The loop need not return: the result is \<open>None\<close> then.
\<close>

partial_function (option) ocr_loop ::
  "env \<Rightarrow> jsstring \<Rightarrow> rat \<Rightarrow> (nat \<Rightarrow> nat list) \<Rightarrow> nat list list \<Rightarrow> rat \<Rightarrow> nat \<Rightarrow>
   jsstring list \<Rightarrow> pool \<Rightarrow> (jsstring list \<times> pool) option" where
  "ocr_loop e lang B sched pageImages i k texts p =
     (if i < of_nat (length pageImages) then
        (let batch = slice pageImages i (fl (i + B));
             (started, p1) = ocr_batch e lang p batch
         in case Promise_all started (sched k) of
              None \<Rightarrow> None
            | Some batchTexts \<Rightarrow>
                ocr_loop e lang B sched pageImages (fl (i + B)) (k + 1) (texts @ batchTexts) p1)
      else Some (texts, p))"

declare ocr_loop.simps [code]

section \<open>Document assembly\<close>

definition fallbackText :: jsstring where
  "fallbackText = js ''[Error rendering text - possible unsupported characters]''"

text \<open>
  \<^verbatim>\<open>const fontSize = isAmharic ? 16 : 14; const lineHeight = isAmharic ? 22 : 18;
  try { page.drawText(normalizedText || cleaned || "(empty)", {...}); }
  catch (error) { page.drawText(fallbackText, { size: 12, color: rgb(1, 0, 0) }); }\<close>
  The page is added before the text is drawn; a placeholder that cannot be drawn either
  ends the assembly with its exception.
\<close>

fun draw_pages :: "env \<Rightarrow> bool \<Rightarrow> jsstring list \<Rightarrow> error + page list" where
  "draw_pages e isAmharic [] = Inr []"
| "draw_pages e isAmharic (rawText # rest) =
     (let t = page_text isAmharic rawText;
          fontSize = (if isAmharic then 16 else 14);
          lineHeight = (if isAmharic then 22 else 18)
      in if drawText e t then
           (case draw_pages e isAmharic rest of
              Inl err \<Rightarrow> Inl err
            | Inr ps \<Rightarrow>
                Inr (\<lparr>ptext = t, psize = fontSize, plineHeight = Some lineHeight, pred = False\<rparr>
                     # ps))
         else if drawText e fallbackText then
           (case draw_pages e isAmharic rest of
              Inl err \<Rightarrow> Inl err
            | Inr ps \<Rightarrow>
                Inr (\<lparr>ptext = fallbackText, psize = 12, plineHeight = None, pred = True\<rparr> # ps))
         else Inl DrawFailure)"

text \<open>
  \<^verbatim>\<open>const fontData = await loadFontData();
  const isAmharic = lang.includes("amh");
  const font = await pdf.embedFont(fontData, { subset: !isAmharic });
  for (const rawText of pageTexts.length ? pageTexts : ["(empty)"]) { ... }
  const base64 = await pdf.saveAsBase64();\<close>
  Loading the font, embedding it and serializing are outside every \<open>try\<close>: their
  exceptions end the assembly. The serialized document stands for its base-64 encoding.
\<close>

definition buildSearchablePdf ::
  "env \<Rightarrow> fonts \<Rightarrow> jsstring list \<Rightarrow> jsstring \<Rightarrow> (error + document) \<times> fonts" where
  "buildSearchablePdf e f pageTexts lang =
     (case loadFontData e f of
        (Inl err, f1) \<Rightarrow> (Inl err, f1)
      | (Inr fontData, f1) \<Rightarrow>
          (let isAmharic = includes_str lang (js ''amh'') in
           if \<not> embedFont e fontData (\<not> isAmharic) then (Inl EmbedFontFailure, f1)
           else
             (case draw_pages e isAmharic
                     (if pageTexts = [] then [js ''(empty)''] else pageTexts) of
                Inl err \<Rightarrow> (Inl err, f1)
              | Inr ps \<Rightarrow>
                  (let doc = \<lparr>doc_pages = ps, doc_font = fontData, doc_subset = \<not> isAmharic\<rparr>
                   in if saveAsBase64 e doc then (Inr doc, f1) else (Inl SaveFailure, f1)))))"

section \<open>The conversion\<close>

record params =
  p_bytes :: "nat list"
  p_filename :: jsstring
  p_mimeType :: "jsstring option"
  p_lang :: "jsstring option"

record OcrResult =
  text' :: jsstring
  pdfBase64 :: document

text \<open>
  \<^verbatim>\<open>const combinedText = texts
    .map((t, idx) => `Page ${idx + 1}\n${t}`.trim()).join("\n\n");\<close>
\<close>

definition combinedText :: "jsstring list \<Rightarrow> jsstring" where
  "combinedText texts =
     join [10, 10]
       (map (\<lambda>(idx, t). trim (js ''Page '' @ decimal (idx + 1) @ [10] @ t)) (enumerate 0 texts))"

text \<open>
  \<^verbatim>\<open>const text = await ocrImage(params.bytes, lang);
  const pdfBase64 = await buildSearchablePdf([text], lang);
  return { text, pdfBase64 };\<close>
  The same three lines serve a PDF that yields no page image and an input that is not a
  PDF; \<open>input\<close> is what \<open>params.bytes\<close> holds when they run.
\<close>

definition convert_single ::
  "env \<Rightarrow> jsstring \<Rightarrow> nat list \<Rightarrow> pool \<times> fonts \<Rightarrow> (error + OcrResult) \<times> pool \<times> fonts" where
  "convert_single e lang input st =
     (case ocrImage e (fst st) input lang of
        (Inl err, p1) \<Rightarrow> (Inl err, p1, snd st)
      | (Inr t, p1) \<Rightarrow>
          (case buildSearchablePdf e (snd st) [t] lang of
             (Inl err, f1) \<Rightarrow> (Inl err, p1, f1)
           | (Inr doc, f1) \<Rightarrow> (Inr \<lparr>text' = t, pdfBase64 = doc\<rparr>, p1, f1)))"

text \<open>
  \<^verbatim>\<open>const lang = params.lang && params.lang.trim() ? params.lang.trim() : "eng";
  const isPdf = params.mimeType === "application/pdf" ||
    params.filename.toLowerCase().endsWith(".pdf");\<close>
\<close>

definition lang_of :: "params \<Rightarrow> jsstring" where
  "lang_of ps =
     (case p_lang ps of
        None \<Rightarrow> js ''eng''
      | Some l \<Rightarrow> if l \<noteq> [] \<and> trim l \<noteq> [] then trim l else js ''eng'')"

definition isPdf :: "params \<Rightarrow> bool" where
  "isPdf ps \<longleftrightarrow>
     p_mimeType ps = Some (js ''application/pdf'')
     \<or> ends_with (toLowerCase (p_filename ps)) (js ''.pdf'')"

text \<open>
  The conversion, from the state \<open>st\<close> of the two caches. The result is \<open>None\<close> when the
  conversion does not return, \<open>Some (Inl err, ...)\<close> when it throws \<open>err\<close>, and carries
  the state of the caches after the call.
\<close>

definition convertToSearchablePdf ::
  "settings \<Rightarrow> env \<Rightarrow> (nat \<Rightarrow> nat list) \<Rightarrow> params \<Rightarrow> pool \<times> fonts \<Rightarrow>
   ((error + OcrResult) \<times> pool \<times> fonts) option" where
  "convertToSearchablePdf cfg e sched ps st =
     (let lang = lang_of ps in
      if isPdf ps then
        (let (pageImages, bytes_now) = rasterizePdfPages cfg e (p_bytes ps) None (Some lang) in
         if pageImages = [] then Some (convert_single e lang bytes_now st)
         else
           (case ocr_loop e lang (batch_size cfg) sched pageImages 0 0 [] (fst st) of
              None \<Rightarrow> None
            | Some (texts, p1) \<Rightarrow>
                (case buildSearchablePdf e (snd st) texts lang of
                   (Inl err, f1) \<Rightarrow> Some (Inl err, p1, f1)
                 | (Inr doc, f1) \<Rightarrow>
                     Some (Inr \<lparr>text' = combinedText texts, pdfBase64 = doc\<rparr>, p1, f1))))
      else Some (convert_single e lang (p_bytes ps) st))"


definition result_pages :: "((error + OcrResult) \<times> pool \<times> fonts) option \<Rightarrow> page list option" where
  "result_pages out =
     (case out of Some (Inr r, st) \<Rightarrow> Some (doc_pages (pdfBase64 r)) | _ \<Rightarrow> None)"

definition result_recognized :: "((error + OcrResult) \<times> pool \<times> fonts) option \<Rightarrow> nat list list option" where
  "result_recognized out =
     (case out of Some (r, p, f) \<Rightarrow> Some (recognized p) | None \<Rightarrow> None)"

text \<open>The state of a process that has not yet used either cache.\<close>

definition pool0 :: pool where
  "pool0 = \<lparr>workerCache = Map.empty, created = [], recognized = []\<rparr>"

definition fonts0 :: fonts where
  "fonts0 = \<lparr>fontCache = None, file_reads = 0, fetches = 0\<rparr>"

section \<open>A small environment for concrete runs\<close>

text \<open>
  Three one-byte page images: recognition of \<open>[4]\<close> gives no text (a blank page), of
  \<open>[5]\<close> and of the empty array throws, of anything else gives \<open>" c "\<close>. The bytes
  \<open>[37]\<close> parse as a PDF of three pages that render to these images (the encoding of a
  canvas is its pixel buffer); nothing else parses, and the PDF library leaves the
  array it was given empty.
  One local font file exists; its contents, abbreviated to the four bytes of the version
  tag a TrueType file begins with, stand for a font that the PDF library embeds. Every
  text can be drawn and every document serialized.
\<close>

definition env_ex :: env where
  "env_ex =
     \<lparr>createWorker = (\<lambda>tag. True),
      recognize = (\<lambda>tag b. if b = [5] \<or> b = [] then None
                            else if b = [4] then Some (Some [])
                            else Some (Some (js '' c ''))),
      getDocument = (\<lambda>b. if b = [37]
                          then Some [\<lambda>scale. Some \<lparr>data = [4], width = 1, height = 1\<rparr>,
                                     \<lambda>scale. Some \<lparr>data = [5], width = 1, height = 1\<rparr>,
                                     \<lambda>scale. Some \<lparr>data = [6], width = 1, height = 1\<rparr>]
                          else None),
      data_after_getDocument = (\<lambda>b. []),
      toBuffer = data,
      ttf_file = Some [0, 1, 0, 0],
      otf_file = None,
      fetch_font = None,
      embedFont = (\<lambda>fontData subset. fontData = [0, 1, 0, 0]),
      drawText = (\<lambda>t. True),
      saveAsBase64 = (\<lambda>doc. True)\<rparr>"


text \<open>The same, with a PDF library that copies the array it is given.\<close>

definition env_copy :: env where
  "env_copy = env_ex\<lparr>data_after_getDocument := (\<lambda>b. b)\<rparr>"


text \<open>The same, with a PDF of one page that renders to the pixel (10, 20, 30, 255).\<close>

definition env_pixel :: env where
  "env_pixel =
     env_ex\<lparr>getDocument :=
       (\<lambda>b. Some [\<lambda>scale. Some \<lparr>data = [10, 20, 30, 255], width = 1, height = 1\<rparr>])\<rparr>"

definition cfg_ex :: settings where
  "cfg_ex = \<lparr>render_scale = 2, binarize_enabled = False, binarize_threshold = 180,
              batch_size = 3\<rparr>"


text \<open>A single image of one pixel, submitted as a JPEG with the tag \<open>"amh"\<close>.\<close>

definition params_img :: params where
  "params_img = \<lparr>p_bytes = [10, 20, 30, 255], p_filename = js ''photo.jpg'',
                  p_mimeType = Some (js ''image/jpeg''), p_lang = Some (js ''amh'')\<rparr>"

section \<open>Properties of the module constants\<close>

lemma env_number_unset: "env_number Number None = NaN"
  by (simp add: env_number_def)

lemma OCR_BATCH_SIZE_range: "1 \<le> OCR_BATCH_SIZE Number raw \<and> OCR_BATCH_SIZE Number raw \<le> 5"
  by (simp add: OCR_BATCH_SIZE_def split: jsnum.split)

lemma Number_dec_0: "Number_dec (js ''0'') = Fin 0"
  by (simp add: Number_dec_def js_def)

lemma Number_dec_10: "Number_dec (js ''10'') = Fin 10"
  by (simp add: Number_dec_def js_def)

text \<open>
  C8, as stated: a configured batch size of 0 is clamped to 1.
  The guard \<open>n <= 0\<close> sends it to the default 3 instead.
\<close>

theorem batch_size_zero_counterexample:
  "OCR_BATCH_SIZE Number_dec (Some (js ''0'')) = 3 \<and>
   OCR_BATCH_SIZE Number_dec (Some (js ''0'')) \<noteq> 1"
  by (simp add: OCR_BATCH_SIZE_def env_number_def Number_dec_0)

text \<open>
  C8, amended: the batch size is 3 when the variable is unset, empty, not a finite number
  or not positive (0 included); every positive finite configured value \<open>n\<close> is clamped to
  \<open>[1, 5]\<close>, so 10 gives 5; the batch size always lies in \<open>[1, 5]\<close>.
\<close>

theorem batch_size_clamped:
  "OCR_BATCH_SIZE Number None = 3 \<and>
   OCR_BATCH_SIZE Number (Some []) = 3 \<and>
   (s \<noteq> [] \<and> Number s = Fin n \<and> 0 < n \<longrightarrow>
      OCR_BATCH_SIZE Number (Some s) = min (max n 1) 5) \<and>
   (s \<noteq> [] \<and> Number s = Fin n \<and> n \<le> 0 \<longrightarrow> OCR_BATCH_SIZE Number (Some s) = 3) \<and>
   (Number s \<in> {NaN, PosInf, NegInf} \<longrightarrow> OCR_BATCH_SIZE Number (Some s) = 3) \<and>
   1 \<le> OCR_BATCH_SIZE Number raw \<and> OCR_BATCH_SIZE Number raw \<le> 5"
  using OCR_BATCH_SIZE_range [of Number raw]
  by (auto simp: OCR_BATCH_SIZE_def env_number_def)

theorem batch_size_clamped_witness:
  "OCR_BATCH_SIZE Number_dec (Some (js ''10'')) = 5 \<and>
   OCR_BATCH_SIZE Number_dec (Some (js ''0'')) = 3 \<and>
   OCR_BATCH_SIZE Number_dec (Some (js ''x'')) = 3 \<and>
   OCR_BATCH_SIZE Number_dec None = 3"
  using batch_size_clamped [of Number_dec "js ''10''" 10 None]
        batch_size_clamped [of Number_dec "js ''0''" 0 None]
        batch_size_clamped [of Number_dec "js ''x''" 0 None]
  by (simp add: Number_dec_0 Number_dec_10) (simp add: js_def Number_dec_def)

section \<open>Rounding to a double never falls below the integer part\<close>

lemma bitlen_nonneg: "0 \<le> bitlen n"
  by (induction n rule: bitlen.induct) (subst bitlen.simps, simp)

lemma bitlen_bounds:
  "0 < n \<Longrightarrow> 2 ^ nat (bitlen n - 1) \<le> n \<and> n < 2 ^ nat (bitlen n)"
proof (induction n rule: bitlen.induct)
  case (1 n)
  show ?case
  proof (cases "n = 1")
    case True
    have "bitlen 1 = 1" by (subst bitlen.simps, simp, subst bitlen.simps, simp)
    with True show ?thesis by simp
  next
    case False
    with "1.prems" have h: "0 < n div 2" by simp
    have b: "bitlen n = 1 + bitlen (n div 2)"
      using "1.prems" by (subst bitlen.simps) simp
    have pos: "1 \<le> bitlen (n div 2)"
      using h by (subst bitlen.simps) (simp add: bitlen_nonneg)
    from "1.IH" h "1.prems"
    have ih: "2 ^ nat (bitlen (n div 2) - 1) \<le> n div 2" "n div 2 < 2 ^ nat (bitlen (n div 2))"
      by simp_all
    have e1: "nat (bitlen n - 1) = Suc (nat (bitlen (n div 2) - 1))"
      using pos b by simp
    have e2: "nat (bitlen n) = Suc (nat (bitlen (n div 2)))"
      using pos b by simp
    have "2 * 2 ^ nat (bitlen (n div 2) - 1) \<le> n" using ih(1) by linarith
    moreover have "n < 2 * 2 ^ nat (bitlen (n div 2))" using ih(2) by linarith
    ultimately show ?thesis by (simp add: e1 e2)
  qed
qed

lemma pow2_pos: "0 < pow2 d"
  by (simp add: pow2_def)

lemma pow2_less_imp: "pow2 a < 2 ^ n \<Longrightarrow> a < int n"
proof (rule ccontr)
  assume a: "pow2 a < 2 ^ n" and "\<not> a < int n"
  then have "n \<le> nat a" "0 \<le> a" by simp_all
  then have "(2::rat) ^ n \<le> 2 ^ nat a" by (simp add: power_increasing)
  with a \<open>0 \<le> a\<close> show False by (simp add: pow2_def)
qed

lemma ilog2_lower: "0 < x \<Longrightarrow> pow2 (ilog2 x) \<le> x"
proof -
  assume x: "0 < x"
  obtain p q where pq: "quotient_of x = (p, q)" by (cases "quotient_of x")
  then have q: "0 < q" and xe: "x = of_int p / of_int q"
    using quotient_of_denom_pos quotient_of_div by blast+
  have p: "0 < p" using x q xe by (simp add: zero_less_divide_iff)
  define d where "d = bitlen p - bitlen q"
  show ?thesis
  proof (cases "pow2 d \<le> x")
    case True
    then show ?thesis by (simp add: ilog2_def pq d_def Let_def)
  next
    case False
    then have e: "ilog2 x = d - 1" by (simp add: ilog2_def pq d_def Let_def)
    from bitlen_bounds [OF p] have lp: "2 ^ nat (bitlen p - 1) \<le> p" by simp
    from bitlen_bounds [OF q] have uq: "q < 2 ^ nat (bitlen q)" by simp
    have bp: "1 \<le> bitlen p" using p by (subst bitlen.simps) (simp add: bitlen_nonneg)
    have bq: "1 \<le> bitlen q" using q by (subst bitlen.simps) (simp add: bitlen_nonneg)
    have lp': "(2::rat) ^ nat (bitlen p - 1) \<le> of_int p"
      using lp by (metis of_int_le_iff of_int_numeral of_int_power)
    have uq': "of_int q \<le> (2::rat) ^ nat (bitlen q)"
      using uq by (metis less_imp_le of_int_le_iff of_int_numeral of_int_power)
    have key: "pow2 (d - 1) * of_int q \<le> of_int p"
    proof (cases "0 \<le> d - 1")
      case True
      then have "nat (bitlen p - 1) = nat (d - 1) + nat (bitlen q)"
        using bq bp by (simp add: d_def)
      then have eq: "(2::rat) ^ nat (bitlen p - 1) = 2 ^ nat (d - 1) * 2 ^ nat (bitlen q)"
        by (simp add: power_add)
      have "pow2 (d - 1) * of_int q = 2 ^ nat (d - 1) * of_int q"
        using True by (simp add: pow2_def)
      also have "\<dots> \<le> 2 ^ nat (d - 1) * 2 ^ nat (bitlen q)"
        by (rule mult_left_mono [OF uq']) simp
      also have "\<dots> = 2 ^ nat (bitlen p - 1)" by (simp only: eq)
      also have "\<dots> \<le> of_int p" by (rule lp')
      finally show ?thesis .
    next
      case False
      then have "nat (bitlen q) = nat (- (d - 1)) + nat (bitlen p - 1)"
        using bq bp by (simp add: d_def)
      then have "(2::rat) ^ nat (bitlen q) = 2 ^ nat (- (d - 1)) * 2 ^ nat (bitlen p - 1)"
        by (simp add: power_add)
      then have "of_int q \<le> (2::rat) ^ nat (- (d - 1)) * 2 ^ nat (bitlen p - 1)"
        using uq' by simp
      also have "\<dots> \<le> 2 ^ nat (- (d - 1)) * of_int p"
        using lp' by simp
      finally have "of_int q / (2::rat) ^ nat (- (d - 1)) \<le> of_int p"
        by (simp add: divide_le_eq mult.commute)
      with False show ?thesis by (simp add: pow2_def)
    qed
    have "pow2 (d - 1) \<le> of_int p / of_int q"
      using key q by (simp add: le_divide_eq)
    then have "pow2 (d - 1) \<le> x" by (simp only: xe)
    then show ?thesis by (simp only: e)
  qed
qed

lemma round_even_ge_floor: "\<lfloor>y\<rfloor> \<le> round_even y"
  by (simp add: round_even_def Let_def)

lemma fl_ge_floor:
  assumes "0 \<le> x" "x < 2 ^ 53"
  shows "of_int \<lfloor>x\<rfloor> \<le> fl x"
proof (cases "x = 0")
  case True
  then show ?thesis by (simp add: fl_def)
next
  case False
  with assms have x: "0 < x" by simp
  from ilog2_lower [OF x] assms(2) have "pow2 (ilog2 x) < 2 ^ 53" by simp
  then have le: "ilog2 x \<le> 52" using pow2_less_imp [of "ilog2 x" 53] by simp
  define n where "n = nat (52 - ilog2 x)"
  have s: "pow2 (ilog2 x - 52) = 1 / 2 ^ n"
  proof (cases "ilog2 x = 52")
    case True
    then show ?thesis by (simp add: pow2_def n_def)
  next
    case False
    with le have "ilog2 x - 52 < 0" by simp
    then show ?thesis by (simp add: pow2_def n_def)
  qed
  have "of_int (\<lfloor>x\<rfloor> * 2 ^ n) \<le> x * 2 ^ n"
    by simp
  then have "\<lfloor>x\<rfloor> * 2 ^ n \<le> \<lfloor>x * 2 ^ n\<rfloor>"
    by (simp only: le_floor_iff)
  also have "\<dots> \<le> round_even (x * 2 ^ n)" by (rule round_even_ge_floor)
  finally have "(of_int (\<lfloor>x\<rfloor> * 2 ^ n) :: rat) \<le> of_int (round_even (x * 2 ^ n))"
    by (simp only: of_int_le_iff)
  then have "(of_int \<lfloor>x\<rfloor> :: rat) * 2 ^ n \<le> of_int (round_even (x * 2 ^ n))"
    by simp
  then have "(of_int \<lfloor>x\<rfloor> :: rat) \<le> of_int (round_even (x * 2 ^ n)) / 2 ^ n"
    by (simp add: le_divide_eq)
  then show ?thesis using False by (simp add: fl_def s Let_def)
qed

text \<open>One rounding moves a value by at most the fraction \<open>2^-53\<close> of itself.\<close>

lemma pow2_Suc: "pow2 (d + 1) = 2 * pow2 d"
proof (cases "0 \<le> d")
  case True
  then have "nat (d + 1) = Suc (nat d)" by simp
  with True show ?thesis by (simp add: pow2_def)
next
  case False
  show ?thesis
  proof (cases "d = - 1")
    case True
    then show ?thesis by (simp add: pow2_def)
  next
    case F: False
    with False have "nat (- d) = Suc (nat (- (d + 1)))" by simp
    with False F show ?thesis by (simp add: pow2_def)
  qed
qed

lemma pow2_shift: "pow2 (d - int n) * 2 ^ n = pow2 d"
proof (induction n)
  case 0
  then show ?case by simp
next
  case (Suc n)
  have "pow2 (d - int n) = 2 * pow2 (d - int (Suc n))"
    using pow2_Suc [of "d - int (Suc n)"] by (simp add: algebra_simps)
  with Suc show ?case by simp
qed

lemma round_even_close: "\<bar>of_int (round_even y) - y\<bar> \<le> 1 / 2"
proof -
  have "of_int \<lfloor>y\<rfloor> \<le> y" "y < of_int \<lfloor>y\<rfloor> + 1" by linarith+
  then show ?thesis
    by (auto simp: round_even_def Let_def abs_le_iff)
qed

lemma fl_close:
  assumes "0 < x"
  shows "\<bar>fl x - x\<bar> \<le> x / 2 ^ 53"
proof -
  define s where "s = pow2 (ilog2 x - 52)"
  define m where "m = round_even (x / s)"
  have s0: "0 < s" by (simp add: s_def pow2_pos)
  have fl: "fl x = of_int m * s"
    using assms by (simp add: fl_def s_def m_def Let_def)
  have "s * 2 ^ 52 = pow2 (ilog2 x)"
    using pow2_shift [of "ilog2 x" 52] by (simp add: s_def)
  with ilog2_lower [OF assms] have sx: "s * 2 ^ 52 \<le> x" by simp
  have "fl x - x = (of_int m - x / s) * s"
    using s0 by (simp add: fl algebra_simps)
  then have "\<bar>fl x - x\<bar> = \<bar>of_int m - x / s\<bar> * s"
    using s0 by (simp add: abs_mult)
  also have "\<dots> \<le> (1 / 2) * s"
    using round_even_close [of "x / s"] s0 by (intro mult_right_mono) (simp_all add: m_def)
  also have "\<dots> \<le> x / 2 ^ 53"
    using sx by (simp add: field_simps)
  finally show ?thesis .
qed

lemma rel_bounds:
  fixes x y u :: rat
  shows "\<bar>y - x\<bar> \<le> x * u \<Longrightarrow> x * (1 - u) \<le> y \<and> y \<le> x * (1 + u)"
  by (simp add: abs_le_iff algebra_simps)

lemma fl_bounds:
  assumes "0 \<le> x"
  shows "x * (1 - 1 / 2 ^ 53) \<le> fl x \<and> fl x \<le> x * (1 + 1 / 2 ^ 53)"
proof (cases "x = 0")
  case True
  then show ?thesis by (simp add: fl_def)
next
  case False
  with assms have "0 < x" by simp
  from fl_close [OF this] have "\<bar>fl x - x\<bar> \<le> x * (1 / 2 ^ 53)"
    by (simp only: times_divide_eq_right mult_1_right)
  then show ?thesis by (rule rel_bounds)
qed

section \<open>Binarization: what the loop does to each byte\<close>

lemma length_binarize_pixel [simp]: "length (binarize_pixel T d idx) = length d"
  by (simp add: binarize_pixel_def Let_def)

lemma length_binarize_loop [simp]: "length (binarize_loop T d idx) = length d"
  by (induction T d idx rule: binarize_loop.induct) (subst binarize_loop.simps, simp)

lemma binarize_pixel_nth:
  "i < length d \<Longrightarrow>
   binarize_pixel T d idx ! i = (if idx \<le> i \<and> i \<le> idx + 2 then pixel_value T d idx else d ! i)"
  by (auto simp: binarize_pixel_def Let_def nth_list_update)

lemma rd_binarize_pixel: "idx + 4 \<le> j \<Longrightarrow> rd (binarize_pixel T d idx) j = rd d j"
  by (simp add: rd_def binarize_pixel_nth)

lemma pixel_value_binarize_pixel:
  "idx + 4 \<le> j \<Longrightarrow> pixel_value T (binarize_pixel T d idx) j = pixel_value T d j"
  by (simp add: pixel_value_def gray_def rd_binarize_pixel)

lemma binarize_loop_nth:
  "i < length d \<Longrightarrow>
   binarize_loop T d idx ! i =
     (if i < idx \<or> (i - idx) mod 4 = 3 then d ! i
      else pixel_value T d (idx + 4 * ((i - idx) div 4)))"
proof (induction T d idx arbitrary: i rule: binarize_loop.induct)
  case (1 T d idx)
  show ?case
  proof (cases "idx < length d")
    case False
    with "1.prems" show ?thesis
      by (subst binarize_loop.simps) simp
  next
    case True
    let ?d1 = "binarize_pixel T d idx"
    have step: "binarize_loop T d idx = binarize_loop T ?d1 (idx + 4)"
      using True by (subst binarize_loop.simps) simp
    have ih: "binarize_loop T ?d1 (idx + 4) ! i =
        (if i < idx + 4 \<or> (i - (idx + 4)) mod 4 = 3 then ?d1 ! i
         else pixel_value T ?d1 (idx + 4 + 4 * ((i - (idx + 4)) div 4)))"
      using "1.IH" [OF True, of i] "1.prems" by simp
    consider (lo) "i < idx" | (px) "idx \<le> i" "i \<le> idx + 2" | (al) "i = idx + 3" | (hi) "idx + 4 \<le> i"
      by linarith
    then show ?thesis
    proof cases
      case lo
      then show ?thesis using ih "1.prems" by (simp add: step binarize_pixel_nth)
    next
      case px
      then have "(i - idx) mod 4 = i - idx" "(i - idx) div 4 = 0" by simp_all
      with px show ?thesis using ih "1.prems" by (auto simp: step binarize_pixel_nth)
    next
      case al
      then show ?thesis using ih "1.prems" by (simp add: step binarize_pixel_nth)
    next
      case hi
      define k where "k = i - (idx + 4)"
      have i: "i - idx = k + 4" using hi by (simp add: k_def)
      have m: "(i - idx) mod 4 = k mod 4" "(i - idx) div 4 = Suc (k div 4)"
        by (simp_all add: i)
      have e: "idx + 4 + 4 * (k div 4) = idx + 4 * Suc (k div 4)" by simp
      have "binarize_pixel T d idx ! i = d ! i"
        using hi "1.prems" by (simp add: binarize_pixel_nth)
      moreover have "pixel_value T (binarize_pixel T d idx) (idx + 4 + 4 * (k div 4)) =
          pixel_value T d (idx + 4 * Suc (k div 4))"
        unfolding e [symmetric] by (rule pixel_value_binarize_pixel) simp
      moreover have "\<not> i < idx + 4" "\<not> i < idx" using hi by simp_all
      ultimately show ?thesis
        using ih unfolding step m k_def [symmetric] by simp
    qed
  qed
qed


text \<open>
  The luminance is the double-precision value of the source expression. For channel
  values up to 255 it lies within \<open>2^-42\<close> of the exact sum of the decimal products, and
  it can fall below it: the pixel (60, 252, 124) has the exact value 180 and evaluates
  to 179.99999999999997.
\<close>

lemma luminance_error:
  assumes "r \<le> 255" "g \<le> 255" "b \<le> 255"
  shows "\<bar>luminance r g b - (299 * of_nat r + 587 * of_nat g + 114 * of_nat b) / 1000\<bar>
         \<le> 1 / 2 ^ 42"
proof -
  define lo :: rat where "lo = 1 - 1 / 2 ^ 53"
  define hi :: rat where "hi = 1 + 1 / 2 ^ 53"
  have lo0: "0 \<le> lo" and lo1: "lo \<le> 1" and hi0: "0 \<le> hi" and hi1: "1 \<le> hi"
    by (simp_all add: lo_def hi_def)
  have F: "y * lo \<le> fl y \<and> fl y \<le> y * hi" if "0 \<le> y" for y
    using fl_bounds [OF that] by (simp add: lo_def hi_def)
  have step: "a * lo ^ Suc n \<le> fl y \<and> fl y \<le> a * hi ^ Suc n \<and> 0 \<le> fl y"
    if "0 \<le> a" "a * lo ^ n \<le> y" "y \<le> a * hi ^ n" for a y n
  proof -
    have y0: "0 \<le> y"
    proof -
      have "0 \<le> a * lo ^ n" using that(1) lo0 by simp
      with that(2) show ?thesis by simp
    qed
    from F [OF y0] have f: "y * lo \<le> fl y" "fl y \<le> y * hi" by simp_all
    have "a * lo ^ n * lo \<le> y * lo" using that(2) lo0 by (rule mult_right_mono)
    with f(1) have l: "a * lo ^ Suc n \<le> fl y" by (simp add: ac_simps)
    have "y * hi \<le> a * hi ^ n * hi" using that(3) hi0 by (rule mult_right_mono)
    with f(2) have h: "fl y \<le> a * hi ^ Suc n" by (simp add: ac_simps)
    have "0 \<le> y * lo" using y0 lo0 by simp
    with f(1) l h show ?thesis by simp
  qed
  have weighted: "w * v * lo ^ 2 \<le> fl (fl w * v) \<and> fl (fl w * v) \<le> w * v * hi ^ 2 \<and>
      0 \<le> fl (fl w * v)"
    if "0 \<le> w" "0 \<le> v" for w v
  proof -
    from step [of w 0 w] that(1)
    have c: "w * lo \<le> fl w" "fl w \<le> w * hi" by simp_all
    have a: "w * v * lo ^ 1 \<le> fl w * v"
      using mult_right_mono [OF c(1) that(2)] by (simp add: ac_simps)
    have b: "fl w * v \<le> w * v * hi ^ 1"
      using mult_right_mono [OF c(2) that(2)] by (simp add: ac_simps)
    have "0 \<le> w * v" using that by simp
    from step [OF this a b] show ?thesis by (simp add: numeral_2_eq_2)
  qed
  define X :: rat where "X = 299 / 1000 * of_nat r"
  define Y :: rat where "Y = 587 / 1000 * of_nat g"
  define Z :: rat where "Z = 114 / 1000 * of_nat b"
  define p1 where "p1 = fl (fl (299 / 1000) * of_nat r)"
  define p2 where "p2 = fl (fl (587 / 1000) * of_nat g)"
  define p3 where "p3 = fl (fl (114 / 1000) * of_nat b)"
  have X0: "0 \<le> X" and Y0: "0 \<le> Y" and Z0: "0 \<le> Z"
    by (simp_all add: X_def Y_def Z_def)
  have P1: "X * lo ^ 2 \<le> p1" "p1 \<le> X * hi ^ 2"
    using weighted [of "299 / 1000" "of_nat r"] by (simp_all add: X_def p1_def)
  have P2: "Y * lo ^ 2 \<le> p2" "p2 \<le> Y * hi ^ 2"
    using weighted [of "587 / 1000" "of_nat g"] by (simp_all add: Y_def p2_def)
  have P3: "Z * lo ^ 2 \<le> p3" "p3 \<le> Z * hi ^ 2"
    using weighted [of "114 / 1000" "of_nat b"] by (simp_all add: Z_def p3_def)
  have S1: "(X + Y) * lo ^ 3 \<le> fl (p1 + p2)" "fl (p1 + p2) \<le> (X + Y) * hi ^ 3"
  proof -
    have a: "(X + Y) * lo ^ 2 \<le> p1 + p2" using P1(1) P2(1) by (simp add: algebra_simps)
    have b: "p1 + p2 \<le> (X + Y) * hi ^ 2" using P1(2) P2(2) by (simp add: algebra_simps)
    have "0 \<le> X + Y" using X0 Y0 by simp
    from step [OF this a b]
    show "(X + Y) * lo ^ 3 \<le> fl (p1 + p2)" "fl (p1 + p2) \<le> (X + Y) * hi ^ 3"
      by (simp_all add: numeral_3_eq_3 numeral_2_eq_2)
  qed
  have lo32: "lo ^ 3 \<le> lo ^ 2"
    using lo0 lo1 by (simp add: power_decreasing)
  have hi23: "hi ^ 2 \<le> hi ^ 3"
    using hi1 by (simp add: power_increasing)
  have T: "(X + Y + Z) * lo ^ 3 \<le> fl (p1 + p2) + p3" "fl (p1 + p2) + p3 \<le> (X + Y + Z) * hi ^ 3"
  proof -
    have "Z * lo ^ 3 \<le> Z * lo ^ 2" using lo32 Z0 by (rule mult_left_mono)
    with P3(1) S1(1) show "(X + Y + Z) * lo ^ 3 \<le> fl (p1 + p2) + p3"
      by (simp add: algebra_simps)
    have "Z * hi ^ 2 \<le> Z * hi ^ 3" using hi23 Z0 by (rule mult_left_mono)
    with P3(2) S1(2) show "fl (p1 + p2) + p3 \<le> (X + Y + Z) * hi ^ 3"
      by (simp add: algebra_simps)
  qed
  define E where "E = X + Y + Z"
  have E0: "0 \<le> E" using X0 Y0 Z0 by (simp add: E_def)
  have lum: "luminance r g b = fl (fl (p1 + p2) + p3)"
    by (simp add: luminance_def p1_def p2_def p3_def)
  from step [OF E0 T [folded E_def]]
  have L: "E * lo ^ 4 \<le> luminance r g b" "luminance r g b \<le> E * hi ^ 4"
    by (simp_all add: lum eval_nat_numeral)
  have "of_nat r \<le> (255::rat)" "of_nat g \<le> (255::rat)" "of_nat b \<le> (255::rat)"
    using assms by (simp_all add: of_nat_le_iff [where ?'a = rat, of _ 255, simplified])
  then have E255: "E \<le> 255" by (simp add: E_def X_def Y_def Z_def)
  have nl: "255 * (1 - lo ^ 4) \<le> 1 / 2 ^ 42" by (simp add: lo_def power4_eq_xxxx)
  have nh: "255 * (hi ^ 4 - 1) \<le> 1 / 2 ^ 42" by (simp add: hi_def power4_eq_xxxx)
  have l4: "lo ^ 4 \<le> 1" using lo0 lo1 by (simp add: power_le_one)
  have h4: "1 \<le> hi ^ 4" using hi1 by simp
  have "E * (1 - lo ^ 4) \<le> 255 * (1 - lo ^ 4)"
    using E255 l4 by (intro mult_right_mono) simp_all
  with nl L(1) have low: "E - luminance r g b \<le> 1 / 2 ^ 42"
    by (simp add: algebra_simps)
  have "E * (hi ^ 4 - 1) \<le> 255 * (hi ^ 4 - 1)"
    using E255 h4 by (intro mult_right_mono) simp_all
  with nh L(2) have high: "luminance r g b - E \<le> 1 / 2 ^ 42"
    by (simp add: algebra_simps)
  have e: "E = (299 * of_nat r + 587 * of_nat g + 114 * of_nat b) / 1000"
    by (simp add: E_def X_def Y_def Z_def)
  from low high have "\<bar>luminance r g b - E\<bar> \<le> 1 / 2 ^ 42"
    by (simp only: abs_le_iff minus_diff_eq simp_thms)
  then show ?thesis by (simp only: e)
qed

lemma luminance_rounding:
  "luminance 60 252 124 < 180 \<and> (299 * 60 + 587 * 252 + 114 * 124) / 1000 = (180::rat)"
  by code_simp

lemma binarize_single_pixel:
  "data (binarize T \<lparr>data = [r, g, b, a], width = w, height = h\<rparr>) =
     (if T \<le> luminance r g b then [255, 255, 255, a] else [0, 0, 0, a])"
proof -
  let ?v = "pixel_value T [r, g, b, a] 0"
  have v: "?v = (if T \<le> luminance r g b then 255 else 0)"
    by (simp add: pixel_value_def gray_def rd_def)
  have "binarize_loop T [r, g, b, a] 0 = binarize_loop T [?v, ?v, ?v, a] 4"
    by (subst binarize_loop.simps) (simp add: binarize_pixel_def Let_def)
  also have "\<dots> = [?v, ?v, ?v, a]"
    by (subst binarize_loop.simps) simp
  finally show ?thesis by (simp add: binarize_def v)
qed

lemma tolerance:
  fixes l x t eps :: rat
  assumes "\<bar>l - x\<bar> \<le> eps"
  shows "(t + eps \<le> x \<longrightarrow> t \<le> l) \<and> (x < t - eps \<longrightarrow> \<not> t \<le> l)"
  using assms by (auto simp: abs_le_iff)

lemma binarize_dark_pixel:
  "data (binarize 180 \<lparr>data = [10, 20, 30, 255], width = w, height = h\<rparr>) = [0, 0, 0, 255]"
proof -
  have "\<bar>luminance 10 20 30 - (299 * of_nat 10 + 587 * of_nat 20 + 114 * of_nat 30) / 1000\<bar>
      \<le> 1 / 2 ^ 42"
    by (rule luminance_error) simp_all
  from tolerance [OF this, of 180] have "\<not> 180 \<le> luminance 10 20 30"
    by simp
  then show ?thesis by (simp add: binarize_single_pixel)
qed

lemma BINARIZE_THRESHOLD_range:
  "0 \<le> BINARIZE_THRESHOLD Number raw \<and> BINARIZE_THRESHOLD Number raw \<le> 255"
  by (simp add: BINARIZE_THRESHOLD_def split: jsnum.split)

text \<open>
  C9, as stated: the pixel becomes white when the luminance
  \<open>0.299 R + 0.587 G + 0.114 B\<close> is at least \<open>T\<close>. At the default threshold 180 the pixel
  (60, 252, 124), whose luminance is exactly 180, becomes black.
\<close>

theorem luminance_tie_counterexample:
  "BINARIZE_THRESHOLD Number_dec None = 180 \<and>
   (299 * 60 + 587 * 252 + 114 * 124) / 1000 = (180::rat) \<and>
   data (binarize (BINARIZE_THRESHOLD Number_dec None)
     \<lparr>data = [60, 252, 124, 255], width = 1, height = 1\<rparr>) = [0, 0, 0, 255]"
  using luminance_rounding
  by (simp add: BINARIZE_THRESHOLD_def env_number_def binarize_single_pixel)

text \<open>
  C9, amended: every pixel whose three colour bytes are present gets the same value in
  all three: 255 when the luminance is at least the threshold \<open>T\<close>, 0 otherwise, where
  the luminance is \<open>(0.299 R + 0.587 G) + 0.114 B\<close> evaluated in double precision: each
  decimal weight, each product and each sum is rounded to the nearest double. For
  channel values up to 255 that luminance is within \<open>2^-42\<close> of the exact value, so the
  pixel is white when the exact value is at least \<open>T + 2^-42\<close> and black when it is
  below \<open>T - 2^-42\<close>. The threshold is 180 when unset or not finite, and every finite
  configured value is clamped to \<open>[0, 255]\<close>.
\<close>

theorem binarize_by_luminance:
  "(4 * p + 2 < length (data img) \<longrightarrow>
      (let d = data img;
           R = d ! (4 * p); G = d ! (4 * p + 1); B = d ! (4 * p + 2);
           L = fl (fl (fl (fl (299 / 1000) * of_nat R) + fl (fl (587 / 1000) * of_nat G))
                   + fl (fl (114 / 1000) * of_nat B));
           exact = (299 * of_nat R + 587 * of_nat G + 114 * of_nat B) / 1000;
           v = (if T \<le> L then 255 else 0);
           d' = data (binarize T img)
       in d' ! (4 * p) = v \<and> d' ! (4 * p + 1) = v \<and> d' ! (4 * p + 2) = v \<and>
          (R \<le> 255 \<and> G \<le> 255 \<and> B \<le> 255 \<longrightarrow>
             \<bar>L - exact\<bar> \<le> 1 / 2 ^ 42 \<and>
             (T + 1 / 2 ^ 42 \<le> exact \<longrightarrow> v = 255) \<and>
             (exact < T - 1 / 2 ^ 42 \<longrightarrow> v = 0)))) \<and>
   BINARIZE_THRESHOLD Number None = 180 \<and>
   (Number s \<in> {NaN, PosInf, NegInf} \<longrightarrow> BINARIZE_THRESHOLD Number (Some s) = 180) \<and>
   (s \<noteq> [] \<and> Number s = Fin n \<longrightarrow>
      BINARIZE_THRESHOLD Number (Some s) = min (max n 0) 255) \<and>
   0 \<le> BINARIZE_THRESHOLD Number raw \<and> BINARIZE_THRESHOLD Number raw \<le> 255"
proof -
  let ?R = "data img ! (4 * p)" and ?G = "data img ! (4 * p + 1)" and ?B = "data img ! (4 * p + 2)"
  let ?exact = "(299 * of_nat ?R + 587 * of_nat ?G + 114 * of_nat ?B) / (1000::rat)"
  have px: "data (binarize T img) ! (4 * p + j) = (if T \<le> luminance ?R ?G ?B then 255 else 0)"
    if "4 * p + 2 < length (data img)" "j \<le> 2" for j
  proof -
    have "(4 * p + j) mod 4 = j" "(4 * p + j) div 4 = p"
      using that(2) by simp_all
    then have "data (binarize T img) ! (4 * p + j) = pixel_value T (data img) (4 * p)"
      using that binarize_loop_nth [of "4 * p + j" "data img" T 0]
      by (simp add: binarize_def)
    then show ?thesis
      using that(1) by (simp add: pixel_value_def gray_def rd_def)
  qed
  have tol: "\<bar>luminance ?R ?G ?B - ?exact\<bar> \<le> 1 / 2 ^ 42 \<and>
      (T + 1 / 2 ^ 42 \<le> ?exact \<longrightarrow> (if T \<le> luminance ?R ?G ?B then 255 else 0) = (255::nat)) \<and>
      (?exact < T - 1 / 2 ^ 42 \<longrightarrow> (if T \<le> luminance ?R ?G ?B then 255 else 0) = (0::nat))"
    if "?R \<le> 255" "?G \<le> 255" "?B \<le> 255"
  proof -
    from luminance_error [OF that]
    have e: "\<bar>luminance ?R ?G ?B - ?exact\<bar> \<le> 1 / 2 ^ 42" .
    from tolerance [OF e, of T] e show ?thesis
      by (simp only: if_True if_False simp_thms split: if_split) blast
  qed
  have "4 * p + 2 < length (data img) \<longrightarrow>
      (let d = data img;
           R = d ! (4 * p); G = d ! (4 * p + 1); B = d ! (4 * p + 2);
           L = fl (fl (fl (fl (299 / 1000) * of_nat R) + fl (fl (587 / 1000) * of_nat G))
                   + fl (fl (114 / 1000) * of_nat B));
           exact = (299 * of_nat R + 587 * of_nat G + 114 * of_nat B) / 1000;
           v = (if T \<le> L then 255 else 0);
           d' = data (binarize T img)
       in d' ! (4 * p) = v \<and> d' ! (4 * p + 1) = v \<and> d' ! (4 * p + 2) = v \<and>
          (R \<le> 255 \<and> G \<le> 255 \<and> B \<le> 255 \<longrightarrow>
             \<bar>L - exact\<bar> \<le> 1 / 2 ^ 42 \<and>
             (T + 1 / 2 ^ 42 \<le> exact \<longrightarrow> v = 255) \<and>
             (exact < T - 1 / 2 ^ 42 \<longrightarrow> v = 0)))"
    using px [of 0] px [of 1] px [of 2] tol
    unfolding Let_def luminance_def [symmetric] by simp
  moreover have "BINARIZE_THRESHOLD Number None = 180"
    by (simp add: BINARIZE_THRESHOLD_def env_number_def)
  moreover have "Number s \<in> {NaN, PosInf, NegInf} \<longrightarrow> BINARIZE_THRESHOLD Number (Some s) = 180"
    by (auto simp: BINARIZE_THRESHOLD_def env_number_def)
  moreover have "s \<noteq> [] \<and> Number s = Fin n \<longrightarrow>
      BINARIZE_THRESHOLD Number (Some s) = min (max n 0) 255"
    by (simp add: BINARIZE_THRESHOLD_def env_number_def)
  ultimately show ?thesis
    using BINARIZE_THRESHOLD_range [of Number raw] by blast
qed

theorem binarize_by_luminance_witness:
  "data (binarize 180 \<lparr>data = [200, 200, 200, 7, 10, 20, 30, 9], width = 2, height = 1\<rparr>) ! 0 = 255 \<and>
   data (binarize 180 \<lparr>data = [200, 200, 200, 7, 10, 20, 30, 9], width = 2, height = 1\<rparr>) ! 1 = 255 \<and>
   data (binarize 180 \<lparr>data = [200, 200, 200, 7, 10, 20, 30, 9], width = 2, height = 1\<rparr>) ! 2 = 255 \<and>
   data (binarize 180 \<lparr>data = [200, 200, 200, 7, 10, 20, 30, 9], width = 2, height = 1\<rparr>) ! 4 = 0 \<and>
   data (binarize 180 \<lparr>data = [200, 200, 200, 7, 10, 20, 30, 9], width = 2, height = 1\<rparr>) ! 5 = 0 \<and>
   data (binarize 180 \<lparr>data = [200, 200, 200, 7, 10, 20, 30, 9], width = 2, height = 1\<rparr>) ! 6 = 0 \<and>
   BINARIZE_THRESHOLD Number_dec (Some (js ''300'')) = 255"
  using binarize_by_luminance [of 0 "\<lparr>data = [200, 200, 200, 7, 10, 20, 30, 9], width = 2, height = 1\<rparr>"
          180 Number_dec "js ''300''" 300 None]
        binarize_by_luminance [of 1 "\<lparr>data = [200, 200, 200, 7, 10, 20, 30, 9], width = 2, height = 1\<rparr>"
          180 Number_dec "js ''300''" 300 None]
  by (simp add: Let_def Number_dec_def js_def numeral_2_eq_2 split: if_splits)

text \<open>
  C10: binarization leaves the alpha byte of every pixel (the bytes at index 3 mod 4),
  the length of the buffer and the width and height of the page image unchanged, for
  every image and threshold.
\<close>

theorem binarize_frame:
  "length (data (binarize T img)) = length (data img) \<and>
   width (binarize T img) = width img \<and>
   height (binarize T img) = height img \<and>
   (\<forall>i < length (data img). i mod 4 = 3 \<longrightarrow> data (binarize T img) ! i = data img ! i)"
  by (simp add: binarize_def binarize_loop_nth)

theorem binarize_frame_witness:
  "data (binarize 180 \<lparr>data = [200, 200, 200, 7, 10, 20, 30, 9], width = 2, height = 1\<rparr>) ! 3 = 7 \<and>
   data (binarize 180 \<lparr>data = [200, 200, 200, 7, 10, 20, 30, 9], width = 2, height = 1\<rparr>) ! 7 = 9 \<and>
   length (data (binarize 180 \<lparr>data = [200, 200, 200, 7, 10, 20, 30, 9], width = 2, height = 1\<rparr>)) = 8 \<and>
   width (binarize 180 \<lparr>data = [200, 200, 200, 7, 10, 20, 30, 9], width = 2, height = 1\<rparr>) = 2 \<and>
   height (binarize 180 \<lparr>data = [200, 200, 200, 7, 10, 20, 30, 9], width = 2, height = 1\<rparr>) = 1"
proof -
  let ?img = "\<lparr>data = [200, 200, 200, 7, 10, 20, 30, 9], width = 2, height = 1\<rparr>"
  note f = binarize_frame [of 180 ?img]
  from f have "\<forall>i < length (data ?img). i mod 4 = 3 \<longrightarrow> data (binarize 180 ?img) ! i = data ?img ! i"
    by blast
  then have "data (binarize 180 ?img) ! 3 = data ?img ! 3" "data (binarize 180 ?img) ! 7 = data ?img ! 7"
    by simp_all
  with f show ?thesis by simp
qed

section \<open>Batches: results by position, pages in order\<close>

lemma Promise_all_slots:
  "length a = length vals \<Longrightarrow> j < length vals \<Longrightarrow>
   foldl (\<lambda>a j. if j < length vals then a[j := Some (vals ! j)] else a) a cs ! j =
     (if j \<in> set cs then Some (vals ! j) else a ! j)"
proof (induction cs arbitrary: a)
  case Nil
  then show ?case by simp
next
  case (Cons c cs)
  then show ?case by (auto simp: nth_list_update)
qed

lemma Promise_all_length:
  "length a = length vals \<Longrightarrow>
   length (foldl (\<lambda>a j. if j < length vals then a[j := Some (vals ! j)] else a) a cs) = length vals"
  by (induction cs arbitrary: a) auto

lemma Promise_all_complete:
  assumes "\<forall>j < length vals. j \<in> set completion"
  shows "Promise_all vals completion = Some vals"
proof -
  let ?slots = "foldl (\<lambda>a j. if j < length vals then a[j := Some (vals ! j)] else a)
                  (replicate (length vals) None) completion"
  have len: "length ?slots = length vals"
    by (rule Promise_all_length) simp
  have nth: "?slots ! j = Some (vals ! j)" if "j < length vals" for j
    using Promise_all_slots [of "replicate (length vals) None" vals j completion] that assms
    by simp
  have "?slots = map Some vals"
    by (rule nth_equalityI) (simp_all add: len nth)
  then show ?thesis
    by (simp add: Promise_all_def Let_def list_all_iff comp_def)
qed

lemma getWorker_again:
  "fst (getWorker (snd (getWorker p lang)) lang) = fst (getWorker p lang)"
  by (simp add: getWorker_def cache_get_def Let_def split: option.split)

lemma getWorker_recognized:
  "fst (getWorker (p\<lparr>recognized := r\<rparr>) lang) = fst (getWorker p lang)"
  by (simp add: getWorker_def cache_get_def Let_def split: option.split)

lemma ocrImage_handle:
  "fst (getWorker (snd (ocrImage e p b lang)) lang) = fst (getWorker p lang)"
  using getWorker_again [of p lang]
  by (auto simp: ocrImage_def Let_def getWorker_recognized
      split: prod.split sum.split worker_val.split option.split)

lemma ocrImage_depends:
  "fst (getWorker p' lang) = fst (getWorker p lang) \<Longrightarrow>
   fst (ocrImage e p' b lang) = fst (ocrImage e p b lang)"
  by (auto simp: ocrImage_def Let_def split: prod.split sum.split worker_val.split option.split)

lemma ocr_batch_Cons:
  "fst (ocr_batch e lang p (img # imgs)) =
     catch_page (fst (ocrImage e p img lang)) #
     fst (ocr_batch e lang (snd (ocrImage e p img lang)) imgs)"
  "snd (ocr_batch e lang p (img # imgs)) =
     snd (ocr_batch e lang (snd (ocrImage e p img lang)) imgs)"
  by (simp_all add: case_prod_beta Let_def)

lemma ocr_batch_length: "length (fst (ocr_batch e lang p imgs)) = length imgs"
  by (induction imgs arbitrary: p) (simp_all add: case_prod_beta Let_def)

lemma ocr_batch_handle:
  "fst (getWorker (snd (ocr_batch e lang p imgs)) lang) = fst (getWorker p lang)"
proof (induction imgs arbitrary: p)
  case Nil
  then show ?case by simp
next
  case (Cons img imgs)
  show ?case
    by (simp only: ocr_batch_Cons Cons.IH ocrImage_handle)
qed

lemma ocr_batch_texts:
  "fst (getWorker p lang) = fst (getWorker p0 lang) \<Longrightarrow>
   fst (ocr_batch e lang p imgs) = map (\<lambda>img. catch_page (fst (ocrImage e p0 img lang))) imgs"
proof (induction imgs arbitrary: p)
  case Nil
  then show ?case by simp
next
  case (Cons img imgs)
  have h1: "fst (getWorker (snd (ocrImage e p img lang)) lang) = fst (getWorker p0 lang)"
    using ocrImage_handle [of e p img lang] Cons.prems by simp
  have r0: "fst (ocrImage e p img lang) = fst (ocrImage e p0 img lang)"
    by (rule ocrImage_depends [OF Cons.prems])
  show ?case
    by (simp only: ocr_batch_Cons Cons.IH [OF h1] r0 list.map)
qed

lemma slice_bound_nonneg: "0 \<le> x \<Longrightarrow> slice_bound xs x = min (nat \<lfloor>x\<rfloor>) (length xs)"
  by (simp add: slice_bound_def trunc_def Let_def min_def) linarith

lemma slice_nonneg:
  "0 \<le> a \<Longrightarrow> 0 \<le> b \<Longrightarrow>
   slice xs a b =
     take (min (nat \<lfloor>b\<rfloor>) (length xs) - min (nat \<lfloor>a\<rfloor>) (length xs))
       (drop (min (nat \<lfloor>a\<rfloor>) (length xs)) xs)"
  by (simp add: slice_def slice_bound_nonneg Let_def)

lemma take_append_segment:
  "a \<le> m \<Longrightarrow> take a xs @ take (m - a) (drop a xs) = take m xs"
  by (metis le_add_diff_inverse take_add)

lemma ocr_loop_result:
  assumes "1 \<le> B" "B \<le> 5" "length pageImages < 2 ^ 32"
    and "\<forall>k. \<forall>j < length pageImages. j \<in> set (sched k)"
    and "0 \<le> i"
    and "texts = map (\<lambda>img. catch_page (fst (ocrImage e p0 img lang))) (take (nat \<lfloor>i\<rfloor>) pageImages)"
    and "fst (getWorker p lang) = fst (getWorker p0 lang)"
  shows "\<exists>p'. ocr_loop e lang B sched pageImages i k texts p =
           Some (map (\<lambda>img. catch_page (fst (ocrImage e p0 img lang))) pageImages, p')
         \<and> fst (getWorker p' lang) = fst (getWorker p0 lang)"
  using assms
proof (induction "length pageImages - nat \<lfloor>i\<rfloor>" arbitrary: i k texts p rule: less_induct)
  case less
  let ?n = "length pageImages"
  let ?f = "\<lambda>img. catch_page (fst (ocrImage e p0 img lang))"
  show ?case
  proof (cases "i < of_nat ?n")
    case False
    then have "int ?n \<le> \<lfloor>i\<rfloor>" by (simp add: le_floor_iff)
    then have "?n \<le> nat \<lfloor>i\<rfloor>" by simp
    then have "texts = map ?f pageImages" using less.prems(6) by simp
    with False less.prems(7) show ?thesis
      by (subst ocr_loop.simps) simp
  next
    case True
    define i' where "i' = fl (i + B)"
    define a where "a = nat \<lfloor>i\<rfloor>"
    define m where "m = min (nat \<lfloor>i'\<rfloor>) ?n"
    have a_lt: "a < ?n"
      using True less.prems(5) by (simp add: a_def floor_less_iff nat_less_iff)
    have "i + 1 \<le> i + B" using less.prems(1) by simp
    then have "\<lfloor>i + 1\<rfloor> \<le> \<lfloor>i + B\<rfloor>" by (rule floor_mono)
    then have f1: "\<lfloor>i\<rfloor> + 1 \<le> \<lfloor>i + B\<rfloor>" by simp
    have "i < 2 ^ 32"
    proof -
      have "(of_nat ?n :: rat) < of_nat (2 ^ 32)"
        using less.prems(3) by (simp only: of_nat_less_iff)
      with True show ?thesis by simp
    qed
    then have "i + B < 2 ^ 53" using less.prems(2) by simp
    moreover have "0 \<le> i + B" using less.prems(1,5) by simp
    ultimately have "of_int \<lfloor>i + B\<rfloor> \<le> i'"
      unfolding i'_def by (intro fl_ge_floor)
    then have f2: "\<lfloor>i + B\<rfloor> \<le> \<lfloor>i'\<rfloor>" by (simp add: le_floor_iff)
    have i'0: "0 \<le> i'"
    proof -
      have "0 \<le> \<lfloor>i\<rfloor>" using less.prems(5) by simp
      with f1 f2 have "0 \<le> \<lfloor>i'\<rfloor>" by linarith
      then show ?thesis by simp
    qed
    have a_lt': "a < nat \<lfloor>i'\<rfloor>"
    proof -
      have "0 \<le> \<lfloor>i\<rfloor>" using less.prems(5) by simp
      moreover have "\<lfloor>i\<rfloor> + 1 \<le> \<lfloor>i'\<rfloor>" using f1 f2 by linarith
      ultimately show ?thesis unfolding a_def by linarith
    qed
    have am: "a \<le> m" using a_lt a_lt' by (simp add: m_def)
    have batch: "slice pageImages i i' = take (m - a) (drop a pageImages)"
      using less.prems(5) i'0 a_lt by (simp add: slice_nonneg m_def a_def min_def)
    obtain started p1 where ob: "ocr_batch e lang p (slice pageImages i i') = (started, p1)"
      by (cases "ocr_batch e lang p (slice pageImages i i')")
    have started: "started = map ?f (take (m - a) (drop a pageImages))"
    proof -
      have "fst (ocr_batch e lang p (slice pageImages i i')) = map ?f (slice pageImages i i')"
        by (rule ocr_batch_texts [OF less.prems(7)])
      then have "started = map ?f (slice pageImages i i')" by (simp only: ob fst_conv)
      then show ?thesis by (simp only: batch)
    qed
    have h1: "fst (getWorker p1 lang) = fst (getWorker p0 lang)"
    proof -
      have "fst (getWorker (snd (ocr_batch e lang p (slice pageImages i i'))) lang) =
          fst (getWorker p lang)"
        by (rule ocr_batch_handle)
      then show ?thesis by (simp only: ob snd_conv less.prems(7))
    qed
    have "length started \<le> ?n" by (simp add: started)
    then have "\<forall>j < length started. j \<in> set (sched k)"
      using less.prems(4) by auto
    then have pa: "Promise_all started (sched k) = Some started"
      by (rule Promise_all_complete)
    have texts': "texts @ started = map ?f (take (nat \<lfloor>i'\<rfloor>) pageImages)"
    proof -
      have "texts @ started = map ?f (take a pageImages @ take (m - a) (drop a pageImages))"
        using less.prems(6) by (simp add: started a_def)
      also have "\<dots> = map ?f (take m pageImages)"
        by (simp only: take_append_segment [OF am])
      also have "take m pageImages = take (nat \<lfloor>i'\<rfloor>) pageImages"
        by (simp add: m_def min_def)
      finally show ?thesis .
    qed
    have dec: "?n - nat \<lfloor>i'\<rfloor> < ?n - nat \<lfloor>i\<rfloor>"
      using a_lt a_lt' unfolding a_def by linarith
    from less.hyps [OF dec less.prems(1,2,3,4) i'0 texts' h1]
    obtain p' where
      "ocr_loop e lang B sched pageImages i' (k + 1) (texts @ started) p1 =
         Some (map ?f pageImages, p')"
      "fst (getWorker p' lang) = fst (getWorker p0 lang)"
      by blast
    then show ?thesis
      using True by (subst ocr_loop.simps) (simp add: Let_def ob pa i'_def [symmetric])
  qed
qed

section \<open>The scheduler and the cleaning step\<close>

lemma ocrImage_ex:
  "fst (ocrImage env_ex pool0 [4] (js ''eng'')) = Inr []"
  "fst (ocrImage env_ex pool0 [5] (js ''eng'')) = Inl RecognitionFailure"
  "fst (ocrImage env_ex pool0 [6] (js ''eng'')) = Inr (js ''c'')"
  by (simp_all add: ocrImage_def getWorker_def cache_get_def pool0_def env_ex_def
      await_worker_def Object_prototype_keys_def js_def trim_def is_space_def Let_def)

text \<open>
  C1: for every sequence of page images and every language tag, whatever the order in
  which the recognitions of each batch complete (every one of them completing), the
  scheduler returns as many texts as there are page images, and the text at each
  position is the recognition result of the page image at that position (the failure
  marker when that recognition throws). The batch size is any value the module constant
  can take.
\<close>

theorem batch_scheduler_order:
  assumes "\<forall>k. \<forall>j < length pageImages. j \<in> set (sched k)"
    and "length pageImages < 2 ^ 32"
  shows "map_option fst
           (ocr_loop e lang (OCR_BATCH_SIZE Number raw) sched pageImages 0 0 [] p) =
         Some (map (\<lambda>img. catch_page (fst (ocrImage e p img lang))) pageImages)"
proof -
  have B: "1 \<le> OCR_BATCH_SIZE Number raw" "OCR_BATCH_SIZE Number raw \<le> 5"
    using OCR_BATCH_SIZE_range [of Number raw] by simp_all
  from ocr_loop_result [OF B assms(2) assms(1), of 0 "[]" e p lang p 0]
  obtain p' where
    "ocr_loop e lang (OCR_BATCH_SIZE Number raw) sched pageImages 0 0 [] p =
       Some (map (\<lambda>img. catch_page (fst (ocrImage e p img lang))) pageImages, p')"
    by auto
  then show ?thesis by simp
qed

theorem batch_scheduler_order_witness:
  "map_option fst
     (ocr_loop env_ex (js ''eng'') (OCR_BATCH_SIZE Number_dec (Some (js ''2'')))
        (\<lambda>k. [2, 1, 0]) [[6], [5], [4]] 0 0 [] pool0) =
   Some [js ''c'', js ''[OCR failed for this page]'', []]"
proof -
  have c: "\<forall>k. \<forall>j < length [[6], [5], [4::nat]]. j \<in> set ((\<lambda>k. [2, 1, 0]) k)"
    by (auto simp: less_Suc_eq numeral_3_eq_3)
  have l: "length [[6], [5], [4::nat]] < 2 ^ 32" by simp
  show ?thesis
    using batch_scheduler_order [OF c l, of env_ex "js ''eng''" Number_dec "Some (js ''2'')" pool0]
    by (simp add: ocrImage_ex catch_page_def)
qed

text \<open>
  C7: the cleaning step is said to keep the replacement character U+FFFD for a tag
  containing \<open>"amh"\<close> and to drop it otherwise. Evaluated on a text with U+FFFD between
  two letters: for \<open>"amh"\<close> the character is deleted, for \<open>"eng"\<close> it becomes a space;
  for a complex-script tag no cleaned text contains it.
\<close>

theorem clean_removes_replacement_char:
  "page_text (includes_str (js ''amh'') (js ''amh'')) [4768, 65533, 4616] = [4768, 4616] \<and>
   page_text (includes_str (js ''eng'') (js ''amh'')) [97, 65533, 98] = [97, 32, 98] \<and>
   65533 \<notin> set (clean_text True raw)"
proof -
  have "page_text (includes_str (js ''amh'') (js ''amh'')) [4768, 65533, 4616] = [4768, 4616]"
    by (simp add: js_def page_text_def clean_text_def normalize_text_def replace_fffd_def
        replace_controls_def is_control_def remove_bidi_def remove_zero_width_def trim_def
        is_space_def)
  moreover have "page_text (includes_str (js ''eng'') (js ''amh'')) [97, 65533, 98] = [97, 32, 98]"
    by (simp add: js_def page_text_def clean_text_def normalize_text_def replace_fffd_def
        replace_controls_def is_control_def trim_def is_space_def)
  moreover have "65533 \<notin> set (clean_text True raw)"
    by (auto simp: clean_text_def replace_fffd_def remove_bidi_def remove_zero_width_def)
  ultimately show ?thesis by blast
qed

section \<open>The two caches\<close>

lemma getWorker_calls_Cons:
  "fst (getWorker_calls p (l # ls)) =
     fst (getWorker p l) # fst (getWorker_calls (snd (getWorker p l)) ls)"
  "snd (getWorker_calls p (l # ls)) = snd (getWorker_calls (snd (getWorker p l)) ls)"
  by (simp_all add: case_prod_beta Let_def)

lemma getWorker_calls_length: "length (fst (getWorker_calls p ls)) = length ls"
  by (induction ls arbitrary: p) (simp_all add: case_prod_beta Let_def)

lemma getWorker_hit:
  "cache_get p l \<noteq> Undefined \<Longrightarrow> getWorker p l = (cache_get p l, p)"
  by (cases "cache_get p l") (simp_all add: getWorker_def)

lemma getWorker_miss:
  "cache_get p l = Undefined \<Longrightarrow>
   fst (getWorker p l) = Promise \<lparr>pid = length (created p), ptag = l\<rparr> \<and>
   cache_get (snd (getWorker p l)) l = Promise \<lparr>pid = length (created p), ptag = l\<rparr> \<and>
   created (snd (getWorker p l)) = created p @ [l]"
  by (simp add: getWorker_def cache_get_def Let_def)

lemma getWorker_other:
  "l \<noteq> m \<Longrightarrow>
   cache_get (snd (getWorker p l)) m = cache_get p m \<and>
   filter (\<lambda>t. t = m) (created (snd (getWorker p l))) = filter (\<lambda>t. t = m) (created p)"
  by (cases "cache_get p l") (auto simp: getWorker_def cache_get_def Let_def)

lemma calls_cached:
  "cache_get p m \<noteq> Undefined \<Longrightarrow>
   cache_get (snd (getWorker_calls p ls)) m = cache_get p m \<and>
   filter (\<lambda>t. t = m) (created (snd (getWorker_calls p ls))) = filter (\<lambda>t. t = m) (created p) \<and>
   (\<forall>(t, v) \<in> set (zip ls (fst (getWorker_calls p ls))). t = m \<longrightarrow> v = cache_get p m)"
proof (induction ls arbitrary: p)
  case Nil
  then show ?case by simp
next
  case (Cons l ls)
  show ?case
  proof (cases "l = m")
    case True
    have g: "getWorker p m = (cache_get p m, p)"
      by (rule getWorker_hit [OF Cons.prems])
    show ?thesis
      using Cons.IH [OF Cons.prems] True by (simp add: getWorker_calls_Cons g del: getWorker_calls.simps)
  next
    case False
    from getWorker_other [OF False, of p]
    have o: "cache_get (snd (getWorker p l)) m = cache_get p m"
      "filter (\<lambda>t. t = m) (created (snd (getWorker p l))) = filter (\<lambda>t. t = m) (created p)"
      by simp_all
    have "cache_get (snd (getWorker p l)) m \<noteq> Undefined" using Cons.prems o by simp
    from Cons.IH [OF this] show ?thesis
      using False by (simp add: getWorker_calls_Cons o del: getWorker_calls.simps)
  qed
qed

lemma calls_uninitialized:
  "cache_get p m = Undefined \<Longrightarrow>
   (m \<notin> set ls \<longrightarrow>
      cache_get (snd (getWorker_calls p ls)) m = Undefined \<and>
      filter (\<lambda>t. t = m) (created (snd (getWorker_calls p ls))) = filter (\<lambda>t. t = m) (created p)) \<and>
   (m \<in> set ls \<longrightarrow>
      length (filter (\<lambda>t. t = m) (created (snd (getWorker_calls p ls)))) =
        Suc (length (filter (\<lambda>t. t = m) (created p))) \<and>
      (\<exists>pr. ptag pr = m \<and> cache_get (snd (getWorker_calls p ls)) m = Promise pr \<and>
         (\<forall>(t, v) \<in> set (zip ls (fst (getWorker_calls p ls))). t = m \<longrightarrow> v = Promise pr)))"
proof (induction ls arbitrary: p)
  case Nil
  then show ?case by simp
next
  case (Cons l ls)
  show ?case
  proof (cases "l = m")
    case True
    let ?pr = "\<lparr>pid = length (created p), ptag = m\<rparr>"
    let ?p1 = "snd (getWorker p m)"
    from getWorker_miss [OF Cons.prems]
    have g: "fst (getWorker p m) = Promise ?pr" "cache_get ?p1 m = Promise ?pr"
      "created ?p1 = created p @ [m]"
      by simp_all
    have "cache_get ?p1 m \<noteq> Undefined" by (simp add: g)
    from calls_cached [OF this, of ls]
    have c: "cache_get (snd (getWorker_calls ?p1 ls)) m = Promise ?pr"
      "filter (\<lambda>t. t = m) (created (snd (getWorker_calls ?p1 ls))) =
         filter (\<lambda>t. t = m) (created p) @ [m]"
      "\<forall>(t, v) \<in> set (zip ls (fst (getWorker_calls ?p1 ls))). t = m \<longrightarrow> v = Promise ?pr"
      by (simp_all add: g)
    have "ptag ?pr = m" by simp
    with c g True show ?thesis
      by (auto simp: getWorker_calls_Cons simp del: getWorker_calls.simps)
  next
    case False
    from getWorker_other [OF False, of p]
    have o: "cache_get (snd (getWorker p l)) m = cache_get p m"
      "filter (\<lambda>t. t = m) (created (snd (getWorker p l))) = filter (\<lambda>t. t = m) (created p)"
      by simp_all
    have "cache_get (snd (getWorker p l)) m = Undefined" using Cons.prems o by simp
    from Cons.IH [OF this] show ?thesis
      using False by (simp add: getWorker_calls_Cons o del: getWorker_calls.simps)
  qed
qed

text \<open>
  C3: take any language tag that is uninitialized (reading the cache under it gives
  \<open>undefined\<close>) and any sequence of engine requests by concurrent callers, for this and
  other tags in any order. Exactly one construction is started for the tag if it is
  requested at all; every request for it receives the same promise, so every waiter sees
  the same outcome, the engine or the construction failure; a later request receives that
  cached promise without a new construction; and the entries of tags not requested are
  as before.
\<close>

theorem worker_single_flight:
  assumes "cache_get p tag = Undefined"
  shows "length (filter (\<lambda>t. t = tag) (created (snd (getWorker_calls p tags)))) =
           length (filter (\<lambda>t. t = tag) (created p)) + (if tag \<in> set tags then 1 else 0) \<and>
         (\<forall>(t, v) \<in> set (zip tags (fst (getWorker_calls p tags))).
            t = tag \<longrightarrow>
              (\<forall>(t', v') \<in> set (zip tags (fst (getWorker_calls p tags))). t' = tag \<longrightarrow> v' = v) \<and>
              getWorker (snd (getWorker_calls p tags)) tag = (v, snd (getWorker_calls p tags)) \<and>
              await_worker e v =
                (if createWorker e tag then Inr (Worker tag) else Inl EngineInitFailure)) \<and>
         (\<forall>other. other \<notin> set tags \<longrightarrow>
            cache_get (snd (getWorker_calls p tags)) other = cache_get p other)"
proof -
  let ?p' = "snd (getWorker_calls p tags)"
  let ?vs = "fst (getWorker_calls p tags)"
  note u = calls_uninitialized [OF assms, of tags]
  have count: "length (filter (\<lambda>t. t = tag) (created ?p')) =
      length (filter (\<lambda>t. t = tag) (created p)) + (if tag \<in> set tags then 1 else 0)"
    using u by auto
  have shared: "(\<forall>(t', v') \<in> set (zip tags ?vs). t' = tag \<longrightarrow> v' = v) \<and>
      getWorker ?p' tag = (v, ?p') \<and>
      await_worker e v = (if createWorker e tag then Inr (Worker tag) else Inl EngineInitFailure)"
    if "(tag, v) \<in> set (zip tags ?vs)" for v
  proof -
    from that have "tag \<in> set tags" by (meson set_zip_leftD)
    with u obtain pr where pr: "ptag pr = tag" "cache_get ?p' tag = Promise pr"
      "\<forall>(t, v) \<in> set (zip tags ?vs). t = tag \<longrightarrow> v = Promise pr"
      by blast
    from pr(3) that have v: "v = Promise pr" by blast
    have "getWorker ?p' tag = (v, ?p')"
      using getWorker_hit [of ?p' tag] pr(2) v by simp
    moreover have "await_worker e v =
        (if createWorker e tag then Inr (Worker tag) else Inl EngineInitFailure)"
      by (simp add: v await_worker_def pr(1))
    ultimately show ?thesis using pr(3) v by blast
  qed
  have other: "cache_get ?p' other = cache_get p other" if "other \<notin> set tags" for other
  proof (cases "cache_get p other = Undefined")
    case True
    with calls_uninitialized [OF True, of tags] that show ?thesis by simp
  next
    case False
    from calls_cached [OF False, of tags] show ?thesis by simp
  qed
  from count shared other show ?thesis by blast
qed


theorem worker_single_flight_witness:
  "cache_get pool0 (js ''amh'') = Undefined \<and>
   length (filter (\<lambda>t. t = js ''amh'')
     (created (snd (getWorker_calls pool0 [js ''amh'', js ''eng'', js ''amh'', js ''amh''])))) = 1"
proof -
  have u: "cache_get pool0 (js ''amh'') = Undefined"
    by (simp add: cache_get_def pool0_def Object_prototype_keys_def js_def)
  show ?thesis
    using worker_single_flight [OF u, of "[js ''amh'', js ''eng'', js ''amh'', js ''amh'']" env_ex] u
    by (simp add: pool0_def)
qed

text \<open>
  A tag that names a member inherited from \<open>Object.prototype\<close> is never uninitialized in
  this sense: the cache read finds the inherited member, no engine is constructed, and
  recognition under such a tag fails because the member has no \<open>recognize\<close> method.
\<close>

lemma inherited_member_is_not_an_engine:
  "getWorker pool0 (js ''constructor'') = (Inherited, pool0) \<and>
   fst (ocrImage e pool0 b (js ''constructor'')) = Inl NotAFunction"
proof -
  have "cache_get pool0 (js ''constructor'') = Inherited"
    by (simp add: cache_get_def pool0_def Object_prototype_keys_def js_def)
  then have "getWorker pool0 (js ''constructor'') = (Inherited, pool0)"
    by (simp add: getWorker_def)
  then show ?thesis
    by (simp add: ocrImage_def await_worker_def)
qed









section \<open>Rasterization, assembly and the two paths of the conversion\<close>












lemma rasterize_amharic:
  "includes_str l (js ''amh'') \<Longrightarrow>
   fst (rasterizePdfPages cfg e b mp (Some l)) =
   (case getDocument e b of
      None \<Rightarrow> []
    | Some pdf \<Rightarrow>
        (case render_pages e AMHARIC_RENDER_SCALE True (binarize_threshold cfg)
                (take (case mp of None \<Rightarrow> min (length pdf) 10
                       | Some m \<Rightarrow> if m = 0 then min (length pdf) 10 else min (length pdf) m) pdf) of
           None \<Rightarrow> []
         | Some imgs \<Rightarrow> imgs))"
  by (simp add: rasterizePdfPages_def Let_def AMHARIC_BINARIZE_ENABLED_def split: option.split)



lemma draw_pages_all:
  "\<forall>t \<in> set ts. drawText e (page_text am t) \<Longrightarrow>
   draw_pages e am ts =
     Inr (map (\<lambda>t. \<lparr>ptext = page_text am t, psize = (if am then 16 else 14),
                     plineHeight = Some (if am then 22 else 18), pred = False\<rparr>) ts)"
  by (induction ts) (auto simp: Let_def)




lemma convert_not_pdf:
  "\<not> isPdf ps \<Longrightarrow>
   convertToSearchablePdf cfg e sched ps st = Some (convert_single e (lang_of ps) (p_bytes ps) st)"
  by (simp add: convertToSearchablePdf_def Let_def)





lemma ocrImage_recognized:
  "await_worker e (fst (getWorker p l)) = Inr (Worker tag) \<Longrightarrow>
   recognized (snd (ocrImage e p b l)) = recognized p @ [b]"
proof -
  assume a: "await_worker e (fst (getWorker p l)) = Inr (Worker tag)"
  have "recognized (snd (getWorker p l)) = recognized p"
    by (cases "cache_get p l") (simp_all add: getWorker_def Let_def)
  then show ?thesis
    using a by (auto simp: ocrImage_def Let_def case_prod_beta split: option.split)
qed

lemma convert_single_result:
  "fst (convert_single e l b st) =
     (case fst (ocrImage e (fst st) b l) of
        Inl err \<Rightarrow> Inl err
      | Inr t \<Rightarrow>
          (case fst (buildSearchablePdf e (snd st) [t] l) of
             Inl err \<Rightarrow> Inl err
           | Inr doc \<Rightarrow> Inr \<lparr>text' = t, pdfBase64 = doc\<rparr>))"
  by (auto simp: convert_single_def split: prod.split sum.split)

lemma convert_single_recognized:
  "recognized (fst (snd (convert_single e l b st))) = recognized (snd (ocrImage e (fst st) b l))"
  by (auto simp: convert_single_def split: prod.split sum.split)

lemma convert_single_log:
  "await_worker e (fst (getWorker (fst st) l)) = Inr (Worker tag) \<Longrightarrow>
   result_recognized (Some (convert_single e l b st)) = Some (recognized (fst st) @ [b])"
  using convert_single_recognized [of e l b st] ocrImage_recognized [of e "fst st" l tag b]
  by (simp add: result_recognized_def case_prod_beta)


lemma result_pages_fst:
  "result_pages out =
     (case map_option fst out of Some (Inr r) \<Rightarrow> Some (doc_pages (pdfBase64 r)) | _ \<Rightarrow> None)"
  by (auto simp: result_pages_def split: option.split sum.split prod.split)

section \<open>One failing page of a PDF\<close>















section \<open>A PDF that cannot be rasterized\<close>

lemma fixture_worker:
  "await_worker env_ex (fst (getWorker (fst (pool0, fonts0)) (js ''eng''))) = Inr (Worker (js ''eng''))"
  "await_worker env_ex (fst (getWorker (fst (pool0, fonts0)) (js ''amh''))) = Inr (Worker (js ''amh''))"
  "await_worker env_copy (fst (getWorker (fst (pool0, fonts0)) (js ''eng''))) = Inr (Worker (js ''eng''))"
  by (simp_all add: getWorker_def cache_get_def pool0_def env_copy_def env_ex_def await_worker_def
      Object_prototype_keys_def js_def Let_def)








lemma recognized_pool0: "recognized pool0 = []"
  by (simp add: pool0_def)





section \<open>A single image under a complex-script tag\<close>

lemma convert_single_page:
  assumes "fst (ocrImage e (fst st) b l) = Inr t"
    and "fst (loadFontData e (snd st)) = Inr fontData"
    and "embedFont e fontData (\<not> includes_str l (js ''amh''))"
    and "drawText e (page_text (includes_str l (js ''amh'')) t)"
    and "\<forall>doc. saveAsBase64 e doc"
  shows "result_pages (Some (convert_single e l b st)) =
           Some [\<lparr>ptext = page_text (includes_str l (js ''amh'')) t,
                  psize = (if includes_str l (js ''amh'') then 16 else 14),
                  plineHeight = Some (if includes_str l (js ''amh'') then 22 else 18),
                  pred = False\<rparr>]"
proof -
  obtain f1 where lf: "loadFontData e (snd st) = (Inr fontData, f1)"
    using assms(2) by (cases "loadFontData e (snd st)") auto
  have "fst (buildSearchablePdf e (snd st) [t] l) =
      Inr \<lparr>doc_pages = [\<lparr>ptext = page_text (includes_str l (js ''amh'')) t,
                           psize = (if includes_str l (js ''amh'') then 16 else 14),
                           plineHeight = Some (if includes_str l (js ''amh'') then 22 else 18),
                           pred = False\<rparr>],
            doc_font = fontData, doc_subset = \<not> includes_str l (js ''amh'')\<rparr>"
    using assms(3,4,5) by (simp add: buildSearchablePdf_def lf Let_def)
  then show ?thesis
    by (simp add: result_pages_fst convert_single_result assms(1))
qed

lemma fixture_img:
  "\<not> isPdf params_img" "lang_of params_img = js ''amh''" "p_bytes params_img = [10, 20, 30, 255]"
  "includes_str (js ''amh'') (js ''amh'')"
  by (simp_all add: isPdf_def lang_of_def params_img_def js_def trim_def is_space_def
      ends_with_def toLowerCase_def)

lemma fixture_pixel:
  "fst (rasterizePdfPages cfg_ex env_pixel [37] None (Some (js ''amh''))) =
     [toBuffer env_ex (binarize (binarize_threshold cfg_ex)
        \<lparr>data = [10, 20, 30, 255], width = 1, height = 1\<rparr>)]"
  using fixture_img(4)
  by (simp add: rasterize_amharic env_pixel_def env_ex_def)

text \<open>
  C6: a single (non-PDF) image converted under the tag \<open>"amh"\<close> is said to be binarized
  before recognition whatever the global toggle. Evaluated on an image of one dark
  pixel: the engine receives the input bytes as they are, with the toggle off and with
  it on, where the binarized pixel would be black; a PDF page rendering to the same
  pixel, under the same tag and with the toggle off, is binarized before recognition.
\<close>

theorem image_path_skips_binarization:
  "result_recognized (convertToSearchablePdf cfg_ex env_ex (\<lambda>k. []) params_img (pool0, fonts0)) =
     Some [[10, 20, 30, 255]] \<and>
   result_recognized (convertToSearchablePdf (cfg_ex\<lparr>binarize_enabled := True\<rparr>) env_ex (\<lambda>k. [])
     params_img (pool0, fonts0)) = Some [[10, 20, 30, 255]] \<and>
   toBuffer env_ex (binarize (binarize_threshold cfg_ex)
     \<lparr>data = [10, 20, 30, 255], width = 1, height = 1\<rparr>) = [0, 0, 0, 255] \<and>
   fst (rasterizePdfPages cfg_ex env_pixel [37] None (Some (js ''amh''))) = [[0, 0, 0, 255]]"
proof -
  have cv: "convertToSearchablePdf cfg env_ex (\<lambda>k. []) params_img (pool0, fonts0) =
      Some (convert_single env_ex (js ''amh'') [10, 20, 30, 255] (pool0, fonts0))" for cfg
    using convert_not_pdf [OF fixture_img(1), of cfg env_ex "\<lambda>k. []" "(pool0, fonts0)"]
    by (simp add: fixture_img)
  have lg: "result_recognized (convertToSearchablePdf cfg env_ex (\<lambda>k. []) params_img (pool0, fonts0)) =
      Some [[10, 20, 30, 255]]" for cfg
    using convert_single_log [OF fixture_worker(2), of "[10, 20, 30, 255]"]
    by (simp add: cv recognized_pool0)
  have bn: "toBuffer env_ex (binarize (binarize_threshold cfg_ex)
      \<lparr>data = [10, 20, 30, 255], width = 1, height = 1\<rparr>) = [0, 0, 0, 255]"
    by (simp add: env_ex_def cfg_ex_def binarize_dark_pixel)
  from lg [of cfg_ex] lg [of "cfg_ex\<lparr>binarize_enabled := True\<rparr>"] bn fixture_pixel
  show ?thesis by (simp only: bn)
qed

end
